theory Spec2Isabelle
  imports Main "HOL-Library.Word"
begin

unbundle bit_operations_syntax

section \<open>The exact-match hash tables of switch/table-hash.c\<close>

text \<open>
  A shallow embedding of \<^verbatim>\<open>src/switch/table-hash.c\<close>: the direct-mapped table
  \<^verbatim>\<open>sw_table_hash\<close>, the double-hashing table \<^verbatim>\<open>sw_table_hash2\<close> built from two
  of them, and their iterators.

  Conventions of the embedding.
  \<^item> \<^verbatim>\<open>unsigned int\<close> and \<^verbatim>\<open>int\<close> are 32-bit words; \<^verbatim>\<open>+\<close> and \<^verbatim>\<open>-\<close> wrap.
  \<^item> A pointer to a flow is the flow it points to; \<^verbatim>\<open>NULL\<close> is \<open>None\<close>. The table code
    never writes to a flow, it only reads its key and hands it to the collaborators.
  \<^item> The bucket array is a list of optional flows; a pointer to a bucket is its index.
  \<^item> A function that reads or writes buckets, or follows a cursor's pointers, returns
    an option: \<open>None\<close> is undefined behaviour of the C code (an access outside the
    bucket array, a dereference of a pointer that is \<^verbatim>\<open>NULL\<close> or freed) or a loop that
    does not return.
  \<^item> Calls that leave the file and have an effect (\<^verbatim>\<open>flow_free\<close>,
    \<^verbatim>\<open>dp_send_flow_expired\<close>) are recorded, in program order, in a list of effects
    returned with the result.
  \<^item> Collaborators that only compute (\<^verbatim>\<open>crc32_calculate\<close>, \<^verbatim>\<open>flow_timeout\<close>,
    \<^verbatim>\<open>flow_del_matches\<close>) are parameters.
\<close>

subsection \<open>Data\<close>

type_synonym c_uint = "32 word"
type_synonym c_int = "32 word"

text \<open>
  Modelled from the spec: \<^verbatim>\<open>flow.h\<close> is not among the sources. A flow key is a
  fixed-size, byte-comparable match descriptor plus a wildcard bitmask; \<^verbatim>\<open>memcmp\<close> over
  the whole key is equality of the record. A flow entry owns its key and, beside it,
  action and timer state that the table code never inspects.
\<close>

record sw_flow_key =
  match_fields :: "8 word list"
  wildcards :: c_uint

record sw_flow =
  key :: sw_flow_key
  state :: "8 word list"

text \<open>
  \<^verbatim>\<open>struct sw_table_hash\<close>. The field \<^verbatim>\<open>crc32\<close> is the state that \<^verbatim>\<open>crc32_init\<close> derives
  from the polynomial; it is represented by the digest \<^verbatim>\<open>crc32_calculate\<close> computes with
  it over a key. The function-pointer header \<^verbatim>\<open>swt\<close> is the dispatch to the functions
  below and carries no data.
\<close>

record sw_table_hash =
  crc32 :: "sw_flow_key \<Rightarrow> c_uint"
  n_flows :: c_uint
  bucket_mask :: c_uint
  buckets :: "sw_flow option list"

text \<open>\<^verbatim>\<open>struct sw_table_hash2\<close>: \<^verbatim>\<open>subtable[0]\<close> and \<^verbatim>\<open>subtable[1]\<close>.\<close>

record sw_table_hash2 =
  subtable0 :: sw_table_hash
  subtable1 :: sw_table_hash

text \<open>
  A pointer obtained from \<^verbatim>\<open>malloc\<close>: \<^verbatim>\<open>NULL\<close>, a block that has been given back with
  \<^verbatim>\<open>free\<close>, or a live block with its contents.
\<close>

datatype 'a ptr = Null | Freed | Ptr 'a

text \<open>
  Modelled from the spec: \<^verbatim>\<open>struct swt_iterator\<close> is declared in \<^verbatim>\<open>table.h\<close>, which is not
  among the sources. The code uses its two fields, the current flow (\<^verbatim>\<open>NULL\<close> is the end
  sentinel) and the \<^verbatim>\<open>private\<close> pointer to the flavor's own cursor state.
\<close>

record 'p swt_iterator =
  flow :: "sw_flow option"
  priv :: "'p ptr"

text \<open>
  \<^verbatim>\<open>struct swt_iterator_hash\<close>. The field \<^verbatim>\<open>th\<close> points to the table under traversal; the
  table must not change while the cursor lives, so the pointer is the table it points to.
\<close>

record swt_iterator_hash =
  th :: sw_table_hash
  bucket_i :: c_uint

record swt_iterator_hash2 =
  th2 :: sw_table_hash2
  ih :: "swt_iterator_hash swt_iterator"
  table_i :: "8 word"

datatype effect = Flow_Free sw_flow | Send_Flow_Expired sw_flow

subsection \<open>Single-hash table\<close>

definition find_bucket :: "sw_table_hash \<Rightarrow> sw_flow_key \<Rightarrow> nat" where
  "find_bucket tab k = unat (crc32 tab k AND bucket_mask tab)"

definition table_hash_lookup :: "sw_table_hash \<Rightarrow> sw_flow_key \<Rightarrow> sw_flow option option" where
  "table_hash_lookup tab k =
     (let bucket = find_bucket tab k in
      if bucket < length (buckets tab) then
        (case buckets tab ! bucket of
           None \<Rightarrow> Some None
         | Some fl \<Rightarrow> Some (if key fl = k then Some fl else None))
      else None)"

definition table_hash_insert ::
  "sw_table_hash \<Rightarrow> sw_flow \<Rightarrow> (c_int \<times> sw_table_hash \<times> effect list) option" where
  "table_hash_insert tab fl =
     (if wildcards (key fl) \<noteq> 0 then Some (0, tab, [])
      else
        let bucket = find_bucket tab (key fl) in
        if bucket < length (buckets tab) then
          (case buckets tab ! bucket of
             None \<Rightarrow>
               Some (1, tab\<lparr>n_flows := n_flows tab + 1,
                             buckets := (buckets tab)[bucket := Some fl]\<rparr>, [])
           | Some old_flow \<Rightarrow>
               if key old_flow = key fl then
                 Some (1, tab\<lparr>buckets := (buckets tab)[bucket := Some fl]\<rparr>,
                       [Flow_Free old_flow])
               else Some (0, tab, []))
        else None)"

text \<open>
  \<^verbatim>\<open>do_delete\<close> frees the flow of a bucket and clears the bucket. Its callers only pass
  an occupied bucket; what \<^verbatim>\<open>flow_free\<close> does with \<^verbatim>\<open>NULL\<close> is not defined in this file.
\<close>

definition do_delete :: "sw_table_hash \<Rightarrow> nat \<Rightarrow> (sw_table_hash \<times> effect list) option" where
  "do_delete tab bucket =
     (if bucket < length (buckets tab) then
        (case buckets tab ! bucket of
           None \<Rightarrow> None
         | Some fl \<Rightarrow> Some (tab\<lparr>buckets := (buckets tab)[bucket := None]\<rparr>, [Flow_Free fl]))
      else None)"

text \<open>
  The scan of \<^verbatim>\<open>table_hash_delete\<close> for a key with wildcards:
  \<^verbatim>\<open>for (i = 0; i <= th->bucket_mask; i++)\<close>, with the table, the count and the effects so
  far as the loop state. \<open>fdm\<close> is \<^verbatim>\<open>flow_del_matches\<close>.
\<close>

partial_function (option) delete_loop ::
  "(sw_flow_key \<Rightarrow> sw_flow_key \<Rightarrow> c_int \<Rightarrow> bool) \<Rightarrow> sw_flow_key \<Rightarrow> c_int \<Rightarrow>
   sw_table_hash \<Rightarrow> c_uint \<Rightarrow> c_uint \<Rightarrow> effect list \<Rightarrow>
   (sw_table_hash \<times> c_uint \<times> effect list) option" where
  "delete_loop fdm k strict tab i count es =
     (if i \<le> bucket_mask tab then
        if unat i < length (buckets tab) then
          (case buckets tab ! unat i of
             None \<Rightarrow> delete_loop fdm k strict tab (i + 1) count es
           | Some fl \<Rightarrow>
               if fdm (key fl) k strict then
                 (case do_delete tab (unat i) of
                    None \<Rightarrow> None
                  | Some (tab', es') \<Rightarrow>
                      delete_loop fdm k strict tab' (i + 1) (count + 1) (es @ es'))
               else delete_loop fdm k strict tab (i + 1) count es)
        else None
      else Some (tab, count, es))"

definition table_hash_delete ::
  "(sw_flow_key \<Rightarrow> sw_flow_key \<Rightarrow> c_int \<Rightarrow> bool) \<Rightarrow> sw_table_hash \<Rightarrow> sw_flow_key \<Rightarrow> c_int \<Rightarrow>
   (c_int \<times> sw_table_hash \<times> effect list) option" where
  "table_hash_delete fdm tab k strict =
     (case
        (if wildcards k = 0 then
           let bucket = find_bucket tab k in
           if bucket < length (buckets tab) then
             (case buckets tab ! bucket of
                None \<Rightarrow> Some (tab, 0, [])
              | Some fl \<Rightarrow>
                  if key fl = k then
                    (case do_delete tab bucket of
                       None \<Rightarrow> None
                     | Some (tab', es) \<Rightarrow> Some (tab', 1, es))
                  else Some (tab, 0, []))
           else None
         else delete_loop fdm k strict tab 0 0 [])
      of
        None \<Rightarrow> None
      | Some (tab', count, es) \<Rightarrow>
          Some (count, tab'\<lparr>n_flows := n_flows tab' - count\<rparr>, es))"

text \<open>
  The scan of \<^verbatim>\<open>table_hash_timeout\<close>. \<open>expired\<close> is \<^verbatim>\<open>flow_timeout\<close> at the time of the
  call. \<^verbatim>\<open>int count\<close> is kept as its 32-bit pattern.
\<close>

partial_function (option) timeout_loop ::
  "(sw_flow \<Rightarrow> bool) \<Rightarrow> sw_table_hash \<Rightarrow> c_uint \<Rightarrow> c_int \<Rightarrow> effect list \<Rightarrow>
   (sw_table_hash \<times> c_int \<times> effect list) option" where
  "timeout_loop expired tab i count es =
     (if i \<le> bucket_mask tab then
        if unat i < length (buckets tab) then
          (case buckets tab ! unat i of
             None \<Rightarrow> timeout_loop expired tab (i + 1) count es
           | Some fl \<Rightarrow>
               if expired fl then
                 (case do_delete tab (unat i) of
                    None \<Rightarrow> None
                  | Some (tab', es') \<Rightarrow>
                      timeout_loop expired tab' (i + 1) (count + 1)
                        (es @ [Send_Flow_Expired fl] @ es'))
               else timeout_loop expired tab (i + 1) count es)
        else None
      else Some (tab, count, es))"

definition table_hash_timeout ::
  "(sw_flow \<Rightarrow> bool) \<Rightarrow> sw_table_hash \<Rightarrow> (c_int \<times> sw_table_hash \<times> effect list) option" where
  "table_hash_timeout expired tab =
     (case timeout_loop expired tab 0 0 [] of
        None \<Rightarrow> None
      | Some (tab', count, es) \<Rightarrow>
          Some (count, tab'\<lparr>n_flows := n_flows tab' - count\<rparr>, es))"

text \<open>\<^verbatim>\<open>table_hash_stats\<close>: the name, \<^verbatim>\<open>n_flows\<close> and \<^verbatim>\<open>max_flows\<close>.\<close>

definition table_hash_stats :: "sw_table_hash \<Rightarrow> string \<times> c_uint \<times> c_uint" where
  "table_hash_stats tab = (''hash'', n_flows tab, bucket_mask tab + 1)"

text \<open>
  \<^verbatim>\<open>table_hash_create\<close>. The allocator is a parameter: \<open>th_mem\<close> is the result of
  \<^verbatim>\<open>malloc(sizeof *th)\<close>, \<open>None\<close> for \<^verbatim>\<open>NULL\<close> and otherwise the contents the block
  happens to have where \<^verbatim>\<open>n_flows\<close> lies (the function never assigns that field);
  \<open>calloc_ok\<close> says whether \<^verbatim>\<open>calloc\<close> returns a block. \<open>crc32_init\<close> maps the
  polynomial to the digest. The result is an abort by the failed \<^verbatim>\<open>assert\<close>, the
  \<^verbatim>\<open>NULL\<close> return, or the new table.
\<close>

datatype 'a created = Assert_Failed | Returned_Null | Created 'a

definition table_hash_create ::
  "(c_uint \<Rightarrow> sw_flow_key \<Rightarrow> c_uint) \<Rightarrow> c_uint option \<Rightarrow> bool \<Rightarrow> c_uint \<Rightarrow> c_uint \<Rightarrow>
   sw_table_hash created" where
  "table_hash_create crc32_init th_mem calloc_ok polynomial n_buckets =
     (case th_mem of
        None \<Rightarrow> Returned_Null
      | Some old_contents \<Rightarrow>
          if (n_buckets AND (n_buckets - 1)) \<noteq> 0 then Assert_Failed
          else if \<not> calloc_ok then Returned_Null
          else Created \<lparr>crc32 = crc32_init polynomial, n_flows = old_contents,
                         bucket_mask = n_buckets - 1,
                         buckets = replicate (unat n_buckets) None\<rparr>)"

subsection \<open>Single-hash table: the cursor\<close>

partial_function (option) next_flow ::
  "swt_iterator_hash \<Rightarrow> (sw_flow option \<times> swt_iterator_hash) option" where
  "next_flow h =
     (if bucket_i h \<le> bucket_mask (th h) then
        if unat (bucket_i h) < length (buckets (th h)) then
          (case buckets (th h) ! unat (bucket_i h) of
             None \<Rightarrow> next_flow (h\<lparr>bucket_i := bucket_i h + 1\<rparr>)
           | Some f \<Rightarrow> Some (Some f, h))
        else None
      else Some (None, h))"

text \<open>
  \<^verbatim>\<open>table_hash_iterator\<close>; \<open>malloc_ok\<close> says whether \<^verbatim>\<open>malloc(sizeof *ih)\<close> returns a
  block. On failure only \<^verbatim>\<open>private\<close> has been assigned.
\<close>

definition table_hash_iterator ::
  "bool \<Rightarrow> sw_table_hash \<Rightarrow> swt_iterator_hash swt_iterator \<Rightarrow>
   (c_int \<times> swt_iterator_hash swt_iterator) option" where
  "table_hash_iterator malloc_ok swt swt_iter =
     (if \<not> malloc_ok then Some (0, swt_iter\<lparr>priv := Null\<rparr>)
      else
        (case next_flow \<lparr>th = swt, bucket_i = 0\<rparr> of
           None \<Rightarrow> None
         | Some (f, h) \<Rightarrow> Some (1, swt_iter\<lparr>flow := f, priv := Ptr h\<rparr>)))"

definition table_hash_next ::
  "swt_iterator_hash swt_iterator \<Rightarrow> swt_iterator_hash swt_iterator option" where
  "table_hash_next swt_iter =
     (case flow swt_iter of
        None \<Rightarrow> Some swt_iter
      | Some _ \<Rightarrow>
          (case priv swt_iter of
             Ptr h \<Rightarrow>
               (case next_flow (h\<lparr>bucket_i := bucket_i h + 1\<rparr>) of
                  None \<Rightarrow> None
                | Some (f, h') \<Rightarrow> Some (swt_iter\<lparr>flow := f, priv := Ptr h'\<rparr>))
           | _ \<Rightarrow> None))"

text \<open>\<^verbatim>\<open>table_hash_iterator_destroy\<close>: \<^verbatim>\<open>free(swt_iter->private)\<close>.\<close>

definition table_hash_iterator_destroy ::
  "swt_iterator_hash swt_iterator \<Rightarrow> swt_iterator_hash swt_iterator option" where
  "table_hash_iterator_destroy swt_iter =
     (case priv swt_iter of
        Null \<Rightarrow> Some swt_iter
      | Freed \<Rightarrow> None
      | Ptr _ \<Rightarrow> Some (swt_iter\<lparr>priv := Freed\<rparr>))"

subsection \<open>Double-hashing table\<close>

text \<open>
  \<^verbatim>\<open>table_hash2_lookup\<close>: the body of its loop over the two subtables is the expression
  of \<^verbatim>\<open>table_hash_lookup\<close>; the first match is returned.
\<close>

definition table_hash2_lookup :: "sw_table_hash2 \<Rightarrow> sw_flow_key \<Rightarrow> sw_flow option option" where
  "table_hash2_lookup t2 k =
     (case table_hash_lookup (subtable0 t2) k of
        None \<Rightarrow> None
      | Some (Some fl) \<Rightarrow> Some (Some fl)
      | Some None \<Rightarrow>
          (case table_hash_lookup (subtable1 t2) k of
             None \<Rightarrow> None
           | Some (Some fl) \<Rightarrow> Some (Some fl)
           | Some None \<Rightarrow> Some None))"

definition table_hash2_insert ::
  "sw_table_hash2 \<Rightarrow> sw_flow \<Rightarrow> (c_int \<times> sw_table_hash2 \<times> effect list) option" where
  "table_hash2_insert t2 fl =
     (case table_hash_insert (subtable0 t2) fl of
        None \<Rightarrow> None
      | Some (r0, s0, es0) \<Rightarrow>
          if r0 \<noteq> 0 then Some (1, t2\<lparr>subtable0 := s0\<rparr>, es0)
          else
            (case table_hash_insert (subtable1 t2) fl of
               None \<Rightarrow> None
             | Some (r1, s1, es1) \<Rightarrow>
                 Some (r1, t2\<lparr>subtable0 := s0, subtable1 := s1\<rparr>, es0 @ es1)))"

text \<open>
  \<^verbatim>\<open>table_hash2_delete\<close> and \<^verbatim>\<open>table_hash2_timeout\<close> add the results of the two
  subtables. C leaves the order of the two calls open; the subtables share no storage,
  so only the order of the effects of one subtable relative to the other depends on it.
  The embedding runs subtable 0 first.
\<close>

definition table_hash2_delete ::
  "(sw_flow_key \<Rightarrow> sw_flow_key \<Rightarrow> c_int \<Rightarrow> bool) \<Rightarrow> sw_table_hash2 \<Rightarrow> sw_flow_key \<Rightarrow> c_int \<Rightarrow>
   (c_int \<times> sw_table_hash2 \<times> effect list) option" where
  "table_hash2_delete fdm t2 k strict =
     (case table_hash_delete fdm (subtable0 t2) k strict of
        None \<Rightarrow> None
      | Some (r0, s0, es0) \<Rightarrow>
          (case table_hash_delete fdm (subtable1 t2) k strict of
             None \<Rightarrow> None
           | Some (r1, s1, es1) \<Rightarrow>
               Some (r0 + r1, t2\<lparr>subtable0 := s0, subtable1 := s1\<rparr>, es0 @ es1)))"

definition table_hash2_timeout ::
  "(sw_flow \<Rightarrow> bool) \<Rightarrow> sw_table_hash2 \<Rightarrow> (c_int \<times> sw_table_hash2 \<times> effect list) option" where
  "table_hash2_timeout expired t2 =
     (case table_hash_timeout expired (subtable0 t2) of
        None \<Rightarrow> None
      | Some (r0, s0, es0) \<Rightarrow>
          (case table_hash_timeout expired (subtable1 t2) of
             None \<Rightarrow> None
           | Some (r1, s1, es1) \<Rightarrow>
               Some (r0 + r1, t2\<lparr>subtable0 := s0, subtable1 := s1\<rparr>, es0 @ es1)))"

definition table_hash2_stats :: "sw_table_hash2 \<Rightarrow> string \<times> c_uint \<times> c_uint" where
  "table_hash2_stats t2 =
     (case (table_hash_stats (subtable0 t2), table_hash_stats (subtable1 t2)) of
        ((_, n0, m0), (_, n1, m1)) \<Rightarrow> (''hash2'', n0 + n1, m0 + m1))"

subsection \<open>Double-hashing table: the cursor\<close>

text \<open>
  \<^verbatim>\<open>table_hash2_iterator\<close>. \<open>ih2_mem\<close> is the result of \<^verbatim>\<open>malloc(sizeof *ih2)\<close>: \<open>None\<close>
  for \<^verbatim>\<open>NULL\<close>, otherwise the contents the block happens to have; \<open>malloc_ok0\<close> and
  \<open>malloc_ok1\<close> are the outcomes of the allocations of the inner cursors over subtable
  0 and subtable 1. After \<^verbatim>\<open>free(ih2)\<close> the caller's \<^verbatim>\<open>private\<close> still holds the address.
\<close>

definition table_hash2_iterator ::
  "swt_iterator_hash2 option \<Rightarrow> bool \<Rightarrow> bool \<Rightarrow> sw_table_hash2 \<Rightarrow>
   swt_iterator_hash2 swt_iterator \<Rightarrow> (c_int \<times> swt_iterator_hash2 swt_iterator) option" where
  "table_hash2_iterator ih2_mem malloc_ok0 malloc_ok1 swt swt_iter =
     (case ih2_mem of
        None \<Rightarrow> Some (0, swt_iter\<lparr>priv := Null\<rparr>)
      | Some old_contents \<Rightarrow>
          let h2 = old_contents\<lparr>th2 := swt\<rparr> in
          (case table_hash_iterator malloc_ok0 (subtable0 (th2 h2)) (ih h2) of
             None \<Rightarrow> None
           | Some (r0, it0) \<Rightarrow>
               if r0 = 0 then Some (0, swt_iter\<lparr>priv := Freed\<rparr>)
               else
                 (case flow it0 of
                    Some f \<Rightarrow>
                      Some (1, swt_iter\<lparr>flow := Some f,
                                         priv := Ptr (h2\<lparr>ih := it0, table_i := 0\<rparr>)\<rparr>)
                  | None \<Rightarrow>
                      (case table_hash_iterator_destroy it0 of
                         None \<Rightarrow> None
                       | Some it0' \<Rightarrow>
                           (case table_hash_iterator malloc_ok1 (subtable1 (th2 h2)) it0' of
                              None \<Rightarrow> None
                            | Some (r1, it1) \<Rightarrow>
                                if r1 = 0 then Some (0, swt_iter\<lparr>priv := Freed\<rparr>)
                                else
                                  Some (1, swt_iter\<lparr>flow := flow it1,
                                         priv := Ptr (h2\<lparr>ih := it1, table_i := 1\<rparr>)\<rparr>))))))"

text \<open>
  \<^verbatim>\<open>table_hash2_next\<close>; \<open>malloc_ok\<close> is the outcome of the allocation of the inner cursor
  over subtable 1, should the call reach it.
\<close>

definition table_hash2_next ::
  "bool \<Rightarrow> swt_iterator_hash2 swt_iterator \<Rightarrow> swt_iterator_hash2 swt_iterator option" where
  "table_hash2_next malloc_ok swt_iter =
     (case flow swt_iter of
        None \<Rightarrow> Some swt_iter
      | Some _ \<Rightarrow>
          (case priv swt_iter of
             Ptr h2 \<Rightarrow>
               (case table_hash_next (ih h2) of
                  None \<Rightarrow> None
                | Some it \<Rightarrow>
                    (case flow it of
                       Some f \<Rightarrow> Some (swt_iter\<lparr>flow := Some f, priv := Ptr (h2\<lparr>ih := it\<rparr>)\<rparr>)
                     | None \<Rightarrow>
                         if table_i h2 = 0 then
                           (case table_hash_iterator_destroy it of
                              None \<Rightarrow> None
                            | Some it' \<Rightarrow>
                                (case table_hash_iterator malloc_ok (subtable1 (th2 h2)) it' of
                                   None \<Rightarrow> None
                                 | Some (r, it1) \<Rightarrow>
                                     if r = 0 then
                                       Some (swt_iter\<lparr>flow := None,
                                               priv := Ptr (h2\<lparr>ih := it1\<lparr>priv := Null\<rparr>,
                                                                table_i := 1\<rparr>)\<rparr>)
                                     else
                                       Some (swt_iter\<lparr>flow := flow it1,
                                               priv := Ptr (h2\<lparr>ih := it1, table_i := 1\<rparr>)\<rparr>)))
                         else Some (swt_iter\<lparr>flow := None, priv := Ptr (h2\<lparr>ih := it\<rparr>)\<rparr>)))
           | _ \<Rightarrow> None))"

definition table_hash2_iterator_destroy ::
  "swt_iterator_hash2 swt_iterator \<Rightarrow> swt_iterator_hash2 swt_iterator option" where
  "table_hash2_iterator_destroy swt_iter =
     (case priv swt_iter of
        Ptr h2 \<Rightarrow>
          (if priv (ih h2) \<noteq> Null then
             (case table_hash_iterator_destroy (ih h2) of
                None \<Rightarrow> None
              | Some _ \<Rightarrow> Some (swt_iter\<lparr>priv := Freed\<rparr>))
           else Some (swt_iter\<lparr>priv := Freed\<rparr>))
      | _ \<Rightarrow> None)"

subsection \<open>Callers\<close>

text \<open>
  The traversal a caller writes with the cursor protocol,
  \<^verbatim>\<open>for (iterator(swt, &it); it.flow != NULL; iterator_next(&it))\<close>, collecting the
  flows it is shown.
\<close>

partial_function (option) collect_hash ::
  "swt_iterator_hash swt_iterator \<Rightarrow> sw_flow list \<Rightarrow> sw_flow list option" where
  "collect_hash it seen =
     (case flow it of
        None \<Rightarrow> Some seen
      | Some f \<Rightarrow>
          (case table_hash_next it of
             None \<Rightarrow> None
           | Some it' \<Rightarrow> collect_hash it' (seen @ [f])))"

partial_function (option) collect_hash2 ::
  "bool \<Rightarrow> swt_iterator_hash2 swt_iterator \<Rightarrow> sw_flow list \<Rightarrow> sw_flow list option" where
  "collect_hash2 malloc_ok it seen =
     (case flow it of
        None \<Rightarrow> Some seen
      | Some f \<Rightarrow>
          (case table_hash2_next malloc_ok it of
             None \<Rightarrow> None
           | Some it' \<Rightarrow> collect_hash2 malloc_ok it' (seen @ [f])))"

text \<open>Calling a cursor's advance operation \<open>n\<close> times.\<close>

fun advance_times :: "nat \<Rightarrow> ('a \<Rightarrow> 'a option) \<Rightarrow> 'a \<Rightarrow> 'a option" where
  "advance_times 0 advance it = Some it"
| "advance_times (Suc n) advance it =
     (case advance it of None \<Rightarrow> None | Some it' \<Rightarrow> advance_times n advance it')"

text \<open>
  Sequences of mutating calls on a table. A timeout carries \<^verbatim>\<open>flow_timeout\<close> as it
  answers at the time of that call.
\<close>

datatype table_op = Insert sw_flow | Delete sw_flow_key c_int | Timeout "sw_flow \<Rightarrow> bool"

definition apply_hash ::
  "(sw_flow_key \<Rightarrow> sw_flow_key \<Rightarrow> c_int \<Rightarrow> bool) \<Rightarrow> sw_table_hash \<Rightarrow> table_op \<Rightarrow>
   sw_table_hash option" where
  "apply_hash fdm tab x =
     (case x of
        Insert fl \<Rightarrow> map_option (\<lambda>(r, tab', es). tab') (table_hash_insert tab fl)
      | Delete k strict \<Rightarrow> map_option (\<lambda>(r, tab', es). tab') (table_hash_delete fdm tab k strict)
      | Timeout expired \<Rightarrow> map_option (\<lambda>(r, tab', es). tab') (table_hash_timeout expired tab))"

fun run_hash ::
  "(sw_flow_key \<Rightarrow> sw_flow_key \<Rightarrow> c_int \<Rightarrow> bool) \<Rightarrow> sw_table_hash \<Rightarrow> table_op list \<Rightarrow>
   sw_table_hash option" where
  "run_hash fdm tab [] = Some tab"
| "run_hash fdm tab (x # xs) =
     (case apply_hash fdm tab x of None \<Rightarrow> None | Some tab' \<Rightarrow> run_hash fdm tab' xs)"

definition apply_hash2 ::
  "(sw_flow_key \<Rightarrow> sw_flow_key \<Rightarrow> c_int \<Rightarrow> bool) \<Rightarrow> sw_table_hash2 \<Rightarrow> table_op \<Rightarrow>
   sw_table_hash2 option" where
  "apply_hash2 fdm t2 x =
     (case x of
        Insert fl \<Rightarrow> map_option (\<lambda>(r, t2', es). t2') (table_hash2_insert t2 fl)
      | Delete k strict \<Rightarrow> map_option (\<lambda>(r, t2', es). t2') (table_hash2_delete fdm t2 k strict)
      | Timeout expired \<Rightarrow> map_option (\<lambda>(r, t2', es). t2') (table_hash2_timeout expired t2))"

fun run_hash2 ::
  "(sw_flow_key \<Rightarrow> sw_flow_key \<Rightarrow> c_int \<Rightarrow> bool) \<Rightarrow> sw_table_hash2 \<Rightarrow> table_op list \<Rightarrow>
   sw_table_hash2 option" where
  "run_hash2 fdm t2 [] = Some t2"
| "run_hash2 fdm t2 (x # xs) =
     (case apply_hash2 fdm t2 x of None \<Rightarrow> None | Some t2' \<Rightarrow> run_hash2 fdm t2' xs)"

fun is_insert :: "table_op \<Rightarrow> bool" where
  "is_insert (Insert _) = True"
| "is_insert _ = False"

subsection \<open>Vocabulary of the properties\<close>

text \<open>
  The representation invariant of \<^verbatim>\<open>struct sw_table_hash\<close>: the bucket array has
  \<^verbatim>\<open>bucket_mask + 1\<close> elements, and that number fits an \<^verbatim>\<open>unsigned int\<close>.
\<close>

definition table_ok :: "sw_table_hash \<Rightarrow> bool" where
  "table_ok tab \<longleftrightarrow>
     length (buckets tab) = unat (bucket_mask tab) + 1 \<and> bucket_mask tab \<noteq> - 1"

definition table2_ok :: "sw_table_hash2 \<Rightarrow> bool" where
  "table2_ok t2 \<longleftrightarrow> table_ok (subtable0 t2) \<and> table_ok (subtable1 t2)"

text \<open>The flows of the occupied buckets, in increasing bucket order.\<close>

fun flows_of :: "sw_flow option list \<Rightarrow> sw_flow list" where
  "flows_of [] = []"
| "flows_of (None # bs) = flows_of bs"
| "flows_of (Some f # bs) = f # flows_of bs"

text \<open>A bucket array with every flow that satisfies \<open>p\<close> removed, all else in place.\<close>

definition clear_where :: "(sw_flow \<Rightarrow> bool) \<Rightarrow> sw_flow option list \<Rightarrow> sw_flow option list" where
  "clear_where p bs =
     map (\<lambda>b. case b of None \<Rightarrow> None | Some f \<Rightarrow> if p f then None else Some f) bs"

text \<open>The bucket counts \<^verbatim>\<open>table_hash_create\<close> is meant for.\<close>

definition power_of_two :: "c_uint \<Rightarrow> bool" where
  "power_of_two n \<longleftrightarrow> (\<exists>k \<in> {0 ..< 32}. n = 2 ^ k)"

text \<open>A table in which no bucket is occupied.\<close>

definition table_empty :: "sw_table_hash \<Rightarrow> bool" where
  "table_empty tab \<longleftrightarrow> flows_of (buckets tab) = []"

text \<open>Every occupied bucket holds a flow whose key is addressed to that bucket.\<close>

definition buckets_placed :: "sw_table_hash \<Rightarrow> bool" where
  "buckets_placed tab \<longleftrightarrow>
     (\<forall>i \<in> {0 ..< length (buckets tab)}.
        case buckets tab ! i of None \<Rightarrow> True | Some f \<Rightarrow> find_bucket tab (key f) = i)"

text \<open>By how much the flow counter exceeds the number of occupied buckets.\<close>

definition counter_offset :: "sw_table_hash \<Rightarrow> c_uint" where
  "counter_offset tab = n_flows tab - of_nat (length (flows_of (buckets tab)))"

text \<open>A key resides in a table when some bucket holds a flow with that key.\<close>

definition resides :: "sw_table_hash \<Rightarrow> sw_flow_key \<Rightarrow> bool" where
  "resides tab k \<longleftrightarrow> k \<in> key ` set (flows_of (buckets tab))"

text \<open>
  Every flow of subtable 1 is there because subtable 0 could not take it: the bucket its
  key is addressed to in subtable 0 holds a flow with another key.
\<close>

definition fallback_only :: "sw_table_hash2 \<Rightarrow> bool" where
  "fallback_only t2 \<longleftrightarrow>
     (\<forall>f \<in> set (flows_of (buckets (subtable1 t2))).
        case buckets (subtable0 t2) ! find_bucket (subtable0 t2) (key f) of
          None \<Rightarrow> False
        | Some g \<Rightarrow> key g \<noteq> key f)"

text \<open>
  A live cursor over a table whose current flow and the flows it has yet to show, in
  order, are \<open>rest\<close>; for the double-hashing table, a cursor that is still in subtable
  0 (with \<open>rest\<close> of subtable 0 to show before subtable 1), and one that has moved on to
  subtable 1.
\<close>

definition cursor_on :: "sw_table_hash \<Rightarrow> swt_iterator_hash swt_iterator \<Rightarrow> sw_flow list \<Rightarrow> bool" where
  "cursor_on tab it rest \<longleftrightarrow>
     (case priv it of
        Ptr h \<Rightarrow>
          th h = tab \<and>
          (case flow it of
             None \<Rightarrow> rest = []
           | Some fl \<Rightarrow>
               unat (bucket_i h) < length (buckets tab) \<and>
               buckets tab ! unat (bucket_i h) = Some fl \<and>
               rest = fl # flows_of (drop (Suc (unat (bucket_i h))) (buckets tab)))
      | _ \<Rightarrow> False)"

definition cursor2_first ::
  "sw_table_hash2 \<Rightarrow> swt_iterator_hash2 swt_iterator \<Rightarrow> sw_flow list \<Rightarrow> bool" where
  "cursor2_first t2 it rest \<longleftrightarrow>
     (case priv it of
        Ptr h2 \<Rightarrow>
          th2 h2 = t2 \<and> table_i h2 = 0 \<and> flow (ih h2) = flow it \<and> rest \<noteq> [] \<and>
          cursor_on (subtable0 t2) (ih h2) rest
      | _ \<Rightarrow> False)"

definition cursor2_second ::
  "sw_table_hash2 \<Rightarrow> swt_iterator_hash2 swt_iterator \<Rightarrow> sw_flow list \<Rightarrow> bool" where
  "cursor2_second t2 it rest \<longleftrightarrow>
     (case priv it of
        Ptr h2 \<Rightarrow>
          th2 h2 = t2 \<and> table_i h2 \<noteq> 0 \<and> flow (ih h2) = flow it \<and>
          cursor_on (subtable1 t2) (ih h2) rest
      | _ \<Rightarrow> False)"

text \<open>
  The three outcomes of an insert in the words of the specification: accepted-new (the
  target bucket is empty), accepted-replace (it holds a flow with the same key),
  rejected (the key carries wildcards, or the bucket holds a flow with another key).
\<close>

datatype insert_outcome = Accepted_New | Accepted_Replace | Rejected

definition insert_case :: "sw_table_hash \<Rightarrow> sw_flow \<Rightarrow> insert_outcome" where
  "insert_case tab fl =
     (if wildcards (key fl) \<noteq> 0 then Rejected
      else
        (case buckets tab ! find_bucket tab (key fl) of
           None \<Rightarrow> Accepted_New
         | Some old_flow \<Rightarrow> if key old_flow = key fl then Accepted_Replace else Rejected))"

text \<open>
  An insert of a flow whose key resides in subtable 1 while subtable 0 has an empty
  bucket for it; and the runs that contain no such insert, each call judged in the
  state the run has reached.
\<close>

definition duplicating_insert :: "sw_table_hash2 \<Rightarrow> table_op \<Rightarrow> bool" where
  "duplicating_insert t2 x =
     (case x of
        Insert fl \<Rightarrow>
          resides (subtable1 t2) (key fl) \<and> insert_case (subtable0 t2) fl = Accepted_New
      | _ \<Rightarrow> False)"

fun no_duplicating_insert ::
  "(sw_flow_key \<Rightarrow> sw_flow_key \<Rightarrow> c_int \<Rightarrow> bool) \<Rightarrow> sw_table_hash2 \<Rightarrow> table_op list \<Rightarrow> bool" where
  "no_duplicating_insert fdm t2 [] = True"
| "no_duplicating_insert fdm t2 (x # xs) =
     (\<not> duplicating_insert t2 x \<and>
      (case apply_hash2 fdm t2 x of
         None \<Rightarrow> True
       | Some t2' \<Rightarrow> no_duplicating_insert fdm t2' xs))"

subsection \<open>Concrete tables and flows\<close>

text \<open>
  \<^verbatim>\<open>crc32.c\<close> and \<^verbatim>\<open>flow.c\<close> are not among the sources. For concrete runs a digest and a
  delete-match predicate stand in for them: a polynomial checksum of the match bytes,
  and a match that is equality when strict and always true otherwise.
\<close>

definition demo_crc32_init :: "c_uint \<Rightarrow> sw_flow_key \<Rightarrow> c_uint" where
  "demo_crc32_init polynomial k =
     fold (\<lambda>b h. h * polynomial + ucast b) (match_fields k) 0"

definition demo_del_matches :: "sw_flow_key \<Rightarrow> sw_flow_key \<Rightarrow> c_int \<Rightarrow> bool" where
  "demo_del_matches fk k strict = (if strict \<noteq> 0 then match_fields fk = match_fields k else True)"

definition key_a :: sw_flow_key where
  "key_a = \<lparr>match_fields = [1, 2], wildcards = 0\<rparr>"

definition key_b :: sw_flow_key where
  "key_b = \<lparr>match_fields = [2, 1], wildcards = 0\<rparr>"

definition key_any :: sw_flow_key where
  "key_any = \<lparr>match_fields = [0, 0], wildcards = 1\<rparr>"

definition flow_a :: sw_flow where
  "flow_a = \<lparr>key = key_a, state = [1]\<rparr>"

definition flow_a' :: sw_flow where
  "flow_a' = \<lparr>key = key_a, state = [2]\<rparr>"

definition flow_b :: sw_flow where
  "flow_b = \<lparr>key = key_b, state = [3]\<rparr>"

definition flow_b' :: sw_flow where
  "flow_b' = \<lparr>key = key_b, state = [4]\<rparr>"

definition flow_any :: sw_flow where
  "flow_any = \<lparr>key = key_any, state = [5]\<rparr>"

text \<open>
  Four buckets each. Under polynomial 1 both keys fall into bucket 3; under polynomial 2
  \<open>key_a\<close> falls into bucket 0 and \<open>key_b\<close> into bucket 1.
\<close>

definition demo_table :: "c_uint \<Rightarrow> sw_flow option list \<Rightarrow> sw_table_hash" where
  "demo_table polynomial bs =
     \<lparr>crc32 = demo_crc32_init polynomial, n_flows = of_nat (length (flows_of bs)),
      bucket_mask = 3, buckets = bs\<rparr>"

definition demo_table2 :: "sw_flow option list \<Rightarrow> sw_flow option list \<Rightarrow> sw_table_hash2" where
  "demo_table2 bs0 bs1 = \<lparr>subtable0 = demo_table 1 bs0, subtable1 = demo_table 2 bs1\<rparr>"

definition no_flows :: "sw_flow option list" where
  "no_flows = [None, None, None, None]"

text \<open>Cursors that have run off the end of an empty table of either flavor.\<close>

definition end_cursor :: "swt_iterator_hash swt_iterator" where
  "end_cursor = \<lparr>flow = None, priv = Ptr \<lparr>th = demo_table 1 no_flows, bucket_i = 4\<rparr>\<rparr>"

definition end_state2 :: swt_iterator_hash2 where
  "end_state2 =
     \<lparr>th2 = demo_table2 no_flows no_flows,
      ih = \<lparr>flow = None, priv = Ptr \<lparr>th = demo_table 2 no_flows, bucket_i = 4\<rparr>\<rparr>,
      table_i = 1\<rparr>"

definition end_cursor2 :: "swt_iterator_hash2 swt_iterator" where
  "end_cursor2 = \<lparr>flow = None, priv = Ptr end_state2\<rparr>"

text \<open>
  The cursor that \<^verbatim>\<open>table_hash2_iterator\<close> returns over the double-hashing table with
  \<open>flow_a\<close> in subtable 0 and \<open>flow_b\<close> in subtable 1.
\<close>

definition cursor_at_a :: "swt_iterator_hash2 swt_iterator" where
  "cursor_at_a =
     \<lparr>flow = Some flow_a,
      priv = Ptr \<lparr>th2 = demo_table2 [None, None, None, Some flow_a] [None, Some flow_b, None, None],
                  ih = \<lparr>flow = Some flow_a,
                        priv = Ptr \<lparr>th = demo_table 1 [None, None, None, Some flow_a],
                                    bucket_i = 3\<rparr>\<rparr>,
                  table_i = 0\<rparr>\<rparr>"

section \<open>Properties\<close>

subsection \<open>Bucket addressing\<close>

lemma find_bucket_le_mask: "find_bucket tab k \<le> unat (bucket_mask tab)"
  unfolding find_bucket_def by (simp add: word_le_nat_alt [symmetric] word_and_le1)

lemma find_bucket_in_range: "table_ok tab \<Longrightarrow> find_bucket tab k < length (buckets tab)"
  using find_bucket_le_mask [of tab k] by (simp add: table_ok_def)

lemmas demo_defs =
  demo_table_def demo_table2_def no_flows_def key_a_def key_b_def key_any_def flow_a_def
  flow_a'_def flow_b_def flow_b'_def flow_any_def demo_crc32_init_def demo_del_matches_def

lemma demo_table_ok: "length bs = 4 \<Longrightarrow> table_ok (demo_table p bs)"
  by (simp add: table_ok_def demo_table_def)

subsection \<open>Insert\<close>

lemma table_hash_insert_total:
  assumes "table_ok tab"
  shows "\<exists>r tab' es. table_hash_insert tab fl = Some (r, tab', es)"
  using find_bucket_in_range [OF assms, of "key fl"]
  by (simp add: table_hash_insert_def Let_def split: option.split)

text \<open>
  Claim C9. Whenever a single-hash insert rejects an entry (it returns 0, which it does
  when the key carries wildcards or the target bucket holds a flow with another key),
  the table it leaves is the table it was given, bucket for bucket and with the same
  \<^verbatim>\<open>n_flows\<close>, and no flow has been freed: the call has no effect at all, so the
  rejected flow stays with the caller.
\<close>

theorem table_hash_insert_rejected_no_change:
  assumes "table_hash_insert tab fl = Some (0, tab', es)"
  shows "tab' = tab \<and> es = [] \<and> buckets tab' = buckets tab \<and> n_flows tab' = n_flows tab"
  using assms
  by (auto simp: table_hash_insert_def Let_def split: if_splits option.splits)

theorem table_hash_insert_rejected_no_change_witness:
  "table_hash_insert (demo_table 1 [None, None, None, Some flow_a]) flow_b
     = Some (0, demo_table 1 [None, None, None, Some flow_a], [])
   \<and> table_hash_insert (demo_table 1 no_flows) flow_any = Some (0, demo_table 1 no_flows, [])
   \<and> buckets (demo_table 1 [None, None, None, Some flow_a]) = [None, None, None, Some flow_a]"
proof -
  have rejected: "table_hash_insert (demo_table 1 [None, None, None, Some flow_a]) flow_b
      = Some (0, demo_table 1 [None, None, None, Some flow_a], [])"
    by (simp add: table_hash_insert_def find_bucket_def demo_defs)
  have wild: "table_hash_insert (demo_table 1 no_flows) flow_any
      = Some (0, demo_table 1 no_flows, [])"
    by (simp add: table_hash_insert_def find_bucket_def demo_defs)
  from table_hash_insert_rejected_no_change [OF rejected] rejected wild
  show ?thesis by (simp add: demo_table_def)
qed

subsection \<open>Advancing a cursor that is at its end\<close>

lemma advance_times_fixed:
  assumes "advance it = Some it"
  shows "advance_times n advance it = Some it"
  using assms by (induction n) simp_all

text \<open>
  Claim C10. For both table flavors, advancing a cursor whose current flow is absent
  (the end sentinel) changes nothing, however often it is done: the call returns the
  cursor it was given, with the same (absent) current flow and the same private state,
  which includes the table the cursor refers to.
\<close>

theorem advance_at_end_is_noop:
  assumes "flow it = None" and "flow it2 = None"
  shows "advance_times n table_hash_next it = Some it
       \<and> advance_times n (table_hash2_next malloc_ok) it2 = Some it2"
proof -
  have "table_hash_next it = Some it"
    using assms(1) by (simp add: table_hash_next_def)
  moreover have "table_hash2_next malloc_ok it2 = Some it2"
    using assms(2) by (simp add: table_hash2_next_def)
  ultimately show ?thesis
    by (simp add: advance_times_fixed)
qed

theorem advance_at_end_is_noop_witness:
  "flow end_cursor = None \<and> flow end_cursor2 = None
   \<and> advance_times 3 table_hash_next end_cursor = Some end_cursor
   \<and> advance_times 3 (table_hash2_next True) end_cursor2 = Some end_cursor2"
proof -
  have e1: "flow end_cursor = None" by (simp add: end_cursor_def)
  have e2: "flow end_cursor2 = None" by (simp add: end_cursor2_def)
  from advance_at_end_is_noop [OF e1 e2, of 3 True] e1 e2 show ?thesis by simp
qed

subsection \<open>The scans of delete and timeout\<close>

lemma unat_succ_le_mask:
  fixes i m :: c_uint
  assumes "i \<le> m" "m \<noteq> - 1"
  shows "unat (i + 1) = Suc (unat i)"
proof -
  have "i \<noteq> - 1" using assms
    by (metis word_order.extremum_unique)
  then have "1 + i \<noteq> 0"
    by (metis add.commute add_eq_0_iff)
  then have "unat (1 + i) = Suc (unat i)" by (rule unatSuc)
  then show ?thesis by (simp add: add.commute)
qed

lemma flows_of_append: "flows_of (xs @ ys) = flows_of xs @ flows_of ys"
  by (induction xs rule: flows_of.induct) simp_all

lemma timeout_loop_spec:
  assumes "length (buckets tab) = unat (bucket_mask tab) + 1" "bucket_mask tab \<noteq> - 1"
    "unat i \<le> length (buckets tab)"
  shows "timeout_loop expired tab i count es =
    Some (tab\<lparr>buckets := take (unat i) (buckets tab) @ clear_where expired (drop (unat i) (buckets tab))\<rparr>,
          count + of_nat (length (filter expired (flows_of (drop (unat i) (buckets tab))))),
          es @ concat (map (\<lambda>f. [Send_Flow_Expired f, Flow_Free f])
                 (filter expired (flows_of (drop (unat i) (buckets tab))))))"
  using assms
proof (induction "length (buckets tab) - unat i" arbitrary: tab i count es)
  case 0
  then have "\<not> i \<le> bucket_mask tab"
    by (simp add: word_le_nat_alt)
  with 0 show ?case
    by (subst timeout_loop.simps) (simp add: clear_where_def)
next
  case (Suc n)
  let ?bs = "buckets tab"
  from Suc.hyps(2) Suc.prems have lt: "unat i < length ?bs" by simp
  with Suc.prems have le: "i \<le> bucket_mask tab" by (simp add: word_le_nat_alt)
  have suc: "unat (i + 1) = Suc (unat i)"
    using le Suc.prems(2) by (rule unat_succ_le_mask)
  have drop: "drop (unat i) ?bs = ?bs ! unat i # drop (Suc (unat i)) ?bs"
    using lt by (simp add: Cons_nth_drop_Suc)
  have take: "take (Suc (unat i)) ?bs = take (unat i) ?bs @ [?bs ! unat i]"
    using lt by (simp add: take_Suc_conv_app_nth)
  show ?case
  proof (cases "?bs ! unat i")
    case None
    have "timeout_loop expired tab i count es = timeout_loop expired tab (i + 1) count es"
      using le lt None by (subst timeout_loop.simps) simp
    also have "\<dots> = Some (tab\<lparr>buckets := take (unat (i + 1)) ?bs @ clear_where expired (drop (unat (i + 1)) ?bs)\<rparr>,
          count + of_nat (length (filter expired (flows_of (drop (unat (i + 1)) ?bs)))),
          es @ concat (map (\<lambda>f. [Send_Flow_Expired f, Flow_Free f])
                 (filter expired (flows_of (drop (unat (i + 1)) ?bs)))))"
      using Suc.hyps(2) Suc.prems lt suc by (intro Suc.hyps(1)) simp_all
    finally show ?thesis
      using None by (simp add: suc drop [unfolded None] take clear_where_def)
  next
    case (Some fl)
    show ?thesis
    proof (cases "expired fl")
      case False
      have "timeout_loop expired tab i count es = timeout_loop expired tab (i + 1) count es"
        using le lt Some False by (subst timeout_loop.simps) simp
      also have "\<dots> = Some (tab\<lparr>buckets := take (unat (i + 1)) ?bs @ clear_where expired (drop (unat (i + 1)) ?bs)\<rparr>,
          count + of_nat (length (filter expired (flows_of (drop (unat (i + 1)) ?bs)))),
          es @ concat (map (\<lambda>f. [Send_Flow_Expired f, Flow_Free f])
                 (filter expired (flows_of (drop (unat (i + 1)) ?bs)))))"
        using Suc.hyps(2) Suc.prems lt suc by (intro Suc.hyps(1)) simp_all
      finally show ?thesis
        using Some False by (simp add: suc drop [unfolded Some] take clear_where_def)
    next
      case True
      let ?tab' = "tab\<lparr>buckets := ?bs[unat i := None]\<rparr>"
      have "timeout_loop expired tab i count es
          = timeout_loop expired ?tab' (i + 1) (count + 1) (es @ [Send_Flow_Expired fl, Flow_Free fl])"
        using le lt Some True by (subst timeout_loop.simps) (simp add: do_delete_def)
      also have "\<dots> = Some (?tab'\<lparr>buckets := take (unat (i + 1)) (buckets ?tab') @ clear_where expired (drop (unat (i + 1)) (buckets ?tab'))\<rparr>,
          count + 1 + of_nat (length (filter expired (flows_of (drop (unat (i + 1)) (buckets ?tab'))))),
          (es @ [Send_Flow_Expired fl, Flow_Free fl]) @ concat (map (\<lambda>f. [Send_Flow_Expired f, Flow_Free f])
                 (filter expired (flows_of (drop (unat (i + 1)) (buckets ?tab'))))))"
        using Suc.hyps(2) Suc.prems lt suc by (intro Suc.hyps(1)) simp_all
      finally show ?thesis
        using Some True lt
        by (simp add: suc drop [unfolded Some] take_Suc_conv_app_nth clear_where_def)
    qed
  qed
qed


lemma delete_loop_spec:
  assumes "length (buckets tab) = unat (bucket_mask tab) + 1" "bucket_mask tab \<noteq> - 1"
    "unat i \<le> length (buckets tab)"
  shows "delete_loop fdm k strict tab i count es =
    Some (tab\<lparr>buckets := take (unat i) (buckets tab)
                   @ clear_where (\<lambda>fl. fdm (key fl) k strict) (drop (unat i) (buckets tab))\<rparr>,
          count + of_nat (length (filter (\<lambda>fl. fdm (key fl) k strict)
                                   (flows_of (drop (unat i) (buckets tab))))),
          es @ map Flow_Free (filter (\<lambda>fl. fdm (key fl) k strict)
                                (flows_of (drop (unat i) (buckets tab)))))"
  using assms
proof (induction "length (buckets tab) - unat i" arbitrary: tab i count es)
  case 0
  then have "\<not> i \<le> bucket_mask tab"
    by (simp add: word_le_nat_alt)
  with 0 show ?case
    by (subst delete_loop.simps) (simp add: clear_where_def)
next
  case (Suc n)
  let ?bs = "buckets tab"
  let ?p = "\<lambda>fl. fdm (key fl) k strict"
  from Suc.hyps(2) Suc.prems have lt: "unat i < length ?bs" by simp
  with Suc.prems have le: "i \<le> bucket_mask tab" by (simp add: word_le_nat_alt)
  have suc: "unat (i + 1) = Suc (unat i)"
    using le Suc.prems(2) by (rule unat_succ_le_mask)
  have drop: "drop (unat i) ?bs = ?bs ! unat i # drop (Suc (unat i)) ?bs"
    using lt by (simp add: Cons_nth_drop_Suc)
  have take: "take (Suc (unat i)) ?bs = take (unat i) ?bs @ [?bs ! unat i]"
    using lt by (simp add: take_Suc_conv_app_nth)
  have keep: "delete_loop fdm k strict tab (i + 1) count es =
      Some (tab\<lparr>buckets := take (unat (i + 1)) ?bs @ clear_where ?p (drop (unat (i + 1)) ?bs)\<rparr>,
            count + of_nat (length (filter ?p (flows_of (drop (unat (i + 1)) ?bs)))),
            es @ map Flow_Free (filter ?p (flows_of (drop (unat (i + 1)) ?bs))))"
    using Suc.hyps(2) Suc.prems lt suc by (intro Suc.hyps(1)) simp_all
  show ?case
  proof (cases "?bs ! unat i")
    case None
    have "delete_loop fdm k strict tab i count es = delete_loop fdm k strict tab (i + 1) count es"
      using le lt None by (subst delete_loop.simps) simp
    with keep show ?thesis
      using None by (simp add: suc drop [unfolded None] take clear_where_def)
  next
    case (Some fl)
    show ?thesis
    proof (cases "?p fl")
      case False
      have "delete_loop fdm k strict tab i count es = delete_loop fdm k strict tab (i + 1) count es"
        using le lt Some False by (subst delete_loop.simps) simp
      with keep show ?thesis
        using Some False by (simp add: suc drop [unfolded Some] take clear_where_def)
    next
      case True
      let ?tab' = "tab\<lparr>buckets := ?bs[unat i := None]\<rparr>"
      have "delete_loop fdm k strict tab i count es
          = delete_loop fdm k strict ?tab' (i + 1) (count + 1) (es @ [Flow_Free fl])"
        using le lt Some True by (subst delete_loop.simps) (simp add: do_delete_def)
      also have "\<dots> = Some (?tab'\<lparr>buckets := take (unat (i + 1)) (buckets ?tab')
                      @ clear_where ?p (drop (unat (i + 1)) (buckets ?tab'))\<rparr>,
          count + 1 + of_nat (length (filter ?p (flows_of (drop (unat (i + 1)) (buckets ?tab'))))),
          (es @ [Flow_Free fl])
            @ map Flow_Free (filter ?p (flows_of (drop (unat (i + 1)) (buckets ?tab')))))"
        using Suc.hyps(2) Suc.prems lt suc by (intro Suc.hyps(1)) simp_all
      finally show ?thesis
        using Some True lt
        by (simp add: suc drop [unfolded Some] take_Suc_conv_app_nth clear_where_def)
    qed
  qed
qed

lemma table_hash_timeout_spec:
  assumes "table_ok tab"
  shows "table_hash_timeout expired tab =
    Some (of_nat (length (filter expired (flows_of (buckets tab)))),
          tab\<lparr>n_flows := n_flows tab - of_nat (length (filter expired (flows_of (buckets tab)))),
               buckets := clear_where expired (buckets tab)\<rparr>,
          concat (map (\<lambda>f. [Send_Flow_Expired f, Flow_Free f])
                    (filter expired (flows_of (buckets tab)))))"
  using assms timeout_loop_spec [of tab 0 expired 0 "[]"]
  by (simp add: table_hash_timeout_def table_ok_def)

lemma table_hash_delete_wild_spec:
  assumes "table_ok tab" "wildcards k \<noteq> 0"
  shows "table_hash_delete fdm tab k strict =
    Some (of_nat (length (filter (\<lambda>fl. fdm (key fl) k strict) (flows_of (buckets tab)))),
          tab\<lparr>n_flows := n_flows tab
                  - of_nat (length (filter (\<lambda>fl. fdm (key fl) k strict) (flows_of (buckets tab)))),
               buckets := clear_where (\<lambda>fl. fdm (key fl) k strict) (buckets tab)\<rparr>,
          map Flow_Free (filter (\<lambda>fl. fdm (key fl) k strict) (flows_of (buckets tab))))"
  using assms delete_loop_spec [of tab 0 fdm k strict 0 "[]"]
  by (simp add: table_hash_delete_def table_ok_def)

lemma table_hash_delete_exact_spec:
  assumes "table_ok tab" "wildcards k = 0"
  shows "table_hash_delete fdm tab k strict =
    (case buckets tab ! find_bucket tab k of
       None \<Rightarrow> Some (0, tab, [])
     | Some fl \<Rightarrow>
         if key fl = k then
           Some (1, tab\<lparr>n_flows := n_flows tab - 1,
                        buckets := (buckets tab)[find_bucket tab k := None]\<rparr>, [Flow_Free fl])
         else Some (0, tab, []))"
  using assms find_bucket_in_range [OF assms(1), of k]
  by (simp add: table_hash_delete_def do_delete_def Let_def split: option.split)

lemma table_ok_length_bound: "table_ok tab \<Longrightarrow> length (buckets tab) < 2 ^ 32"
proof -
  assume ok: "table_ok tab"
  have "unat (bucket_mask tab) < 2 ^ 32"
    using unsigned_less [of "bucket_mask tab"] by simp
  moreover have "unat (bucket_mask tab) \<noteq> 2 ^ 32 - 1"
  proof
    assume "unat (bucket_mask tab) = 2 ^ 32 - 1"
    then have "unat (bucket_mask tab) = unat (- 1 :: c_uint)"
      by (simp add: unsigned_minus_1_eq_mask mask_eq_exp_minus_1)
    then have "bucket_mask tab = - 1" by (simp only: word_unat_eq_iff)
    with ok show False by (simp add: table_ok_def)
  qed
  ultimately show ?thesis using ok by (simp add: table_ok_def)
qed

lemma unat_Suc_0_eq: "unat (r :: c_uint) = Suc 0 \<Longrightarrow> r = 1"
  by (simp add: word_unat_eq_iff)

lemma length_flows_of_le: "length (flows_of bs) \<le> length bs"
  by (induction bs rule: flows_of.induct) simp_all

lemma unat_count_of_flows:
  assumes "table_ok tab"
  shows "unat (of_nat (length (filter p (flows_of (buckets tab)))) :: c_uint)
       = length (filter p (flows_of (buckets tab)))"
proof -
  have "length (filter p (flows_of (buckets tab))) \<le> length (buckets tab)"
    using length_filter_le [of p "flows_of (buckets tab)"] length_flows_of_le [of "buckets tab"]
    by linarith
  with table_ok_length_bound [OF assms]
  have "length (filter p (flows_of (buckets tab))) < 2 ^ 32" by simp
  then show ?thesis by (simp add: unat_of_nat)
qed

subsection \<open>Timeout\<close>

text \<open>
  Claim C6. On a single-hash table, \<^verbatim>\<open>table_hash_timeout\<close> clears exactly the buckets
  whose flow is expired at the time of the call and leaves every other bucket as it
  was; for each removed flow, in bucket order, it calls the expiry notifier once and
  then frees the flow, and it has no other effect; it returns the number of removed
  flows and has taken that number from \<^verbatim>\<open>n_flows\<close>. On a double-hashing table the same
  happens in each subtable (the effects of subtable 0 are listed first, the order in
  which the embedding runs the two scans), the value returned is the sum of the two
  counts (as an \<^verbatim>\<open>int\<close>, that is modulo \<open>2 ^ 32\<close>), and the \<^verbatim>\<open>n_flows\<close> the table
  reports has gone down by it.
\<close>

theorem timeout_removes_exactly_the_expired:
  assumes "table_ok tab" and "table2_ok t2"
  shows "(\<exists>r tab' es. table_hash_timeout expired tab = Some (r, tab', es)
            \<and> buckets tab' = clear_where expired (buckets tab)
            \<and> es = concat (map (\<lambda>f. [Send_Flow_Expired f, Flow_Free f])
                              (filter expired (flows_of (buckets tab))))
            \<and> unat r = length (filter expired (flows_of (buckets tab)))
            \<and> n_flows tab' = n_flows tab - r
            \<and> bucket_mask tab' = bucket_mask tab \<and> crc32 tab' = crc32 tab)
       \<and> (\<exists>r t2' es. table_hash2_timeout expired t2 = Some (r, t2', es)
            \<and> buckets (subtable0 t2') = clear_where expired (buckets (subtable0 t2))
            \<and> buckets (subtable1 t2') = clear_where expired (buckets (subtable1 t2))
            \<and> es = concat (map (\<lambda>f. [Send_Flow_Expired f, Flow_Free f])
                              (filter expired (flows_of (buckets (subtable0 t2)))
                               @ filter expired (flows_of (buckets (subtable1 t2)))))
            \<and> r = of_nat (length (filter expired (flows_of (buckets (subtable0 t2))))
                           + length (filter expired (flows_of (buckets (subtable1 t2)))))
            \<and> fst (snd (table_hash2_stats t2')) = fst (snd (table_hash2_stats t2)) - r)"
proof
  show "\<exists>r tab' es. table_hash_timeout expired tab = Some (r, tab', es)
            \<and> buckets tab' = clear_where expired (buckets tab)
            \<and> es = concat (map (\<lambda>f. [Send_Flow_Expired f, Flow_Free f])
                              (filter expired (flows_of (buckets tab))))
            \<and> unat r = length (filter expired (flows_of (buckets tab)))
            \<and> n_flows tab' = n_flows tab - r
            \<and> bucket_mask tab' = bucket_mask tab \<and> crc32 tab' = crc32 tab"
    using table_hash_timeout_spec [OF assms(1), of expired]
      unat_count_of_flows [OF assms(1), of expired]
    by simp
next
  from assms(2) have ok0: "table_ok (subtable0 t2)" and ok1: "table_ok (subtable1 t2)"
    by (simp_all add: table2_ok_def)
  show "\<exists>r t2' es. table_hash2_timeout expired t2 = Some (r, t2', es)
            \<and> buckets (subtable0 t2') = clear_where expired (buckets (subtable0 t2))
            \<and> buckets (subtable1 t2') = clear_where expired (buckets (subtable1 t2))
            \<and> es = concat (map (\<lambda>f. [Send_Flow_Expired f, Flow_Free f])
                              (filter expired (flows_of (buckets (subtable0 t2)))
                               @ filter expired (flows_of (buckets (subtable1 t2)))))
            \<and> r = of_nat (length (filter expired (flows_of (buckets (subtable0 t2))))
                           + length (filter expired (flows_of (buckets (subtable1 t2)))))
            \<and> fst (snd (table_hash2_stats t2')) = fst (snd (table_hash2_stats t2)) - r"
    by (simp add: table_hash2_timeout_def table_hash_timeout_spec [OF ok0]
        table_hash_timeout_spec [OF ok1] table_hash2_stats_def table_hash_stats_def)
qed

theorem timeout_removes_exactly_the_expired_witness:
  "table_ok (demo_table 1 [Some flow_b, None, None, Some flow_a])
   \<and> table2_ok (demo_table2 [None, None, None, Some flow_a] [None, Some flow_b, None, None])
   \<and> (\<exists>r tab' es.
         table_hash_timeout (\<lambda>f. state f = [1]) (demo_table 1 [Some flow_b, None, None, Some flow_a])
           = Some (r, tab', es)
         \<and> buckets tab' = [Some flow_b, None, None, None]
         \<and> es = [Send_Flow_Expired flow_a, Flow_Free flow_a]
         \<and> unat r = 1 \<and> n_flows tab' = 1)
   \<and> (\<exists>r t2' es.
         table_hash2_timeout (\<lambda>f. True)
             (demo_table2 [None, None, None, Some flow_a] [None, Some flow_b, None, None])
           = Some (r, t2', es)
         \<and> buckets (subtable0 t2') = no_flows \<and> buckets (subtable1 t2') = no_flows
         \<and> es = [Send_Flow_Expired flow_a, Flow_Free flow_a,
                  Send_Flow_Expired flow_b, Flow_Free flow_b]
         \<and> r = 2 \<and> fst (snd (table_hash2_stats t2')) = 0)"
proof -
  have ok: "table_ok (demo_table 1 [Some flow_b, None, None, Some flow_a])"
    by (simp add: demo_table_ok)
  have ok2: "table2_ok (demo_table2 [None, None, None, Some flow_a] [None, Some flow_b, None, None])"
    by (simp add: table2_ok_def demo_table2_def demo_table_ok)
  have st: "state flow_a = [1]" "state flow_b \<noteq> [1]"
    by (simp_all add: flow_a_def flow_b_def)
  from timeout_removes_exactly_the_expired [OF ok ok2, of "\<lambda>f. state f = [1]"]
  have one: "\<exists>r tab' es.
         table_hash_timeout (\<lambda>f. state f = [1]) (demo_table 1 [Some flow_b, None, None, Some flow_a])
           = Some (r, tab', es)
         \<and> buckets tab' = [Some flow_b, None, None, None]
         \<and> es = [Send_Flow_Expired flow_a, Flow_Free flow_a]
         \<and> unat r = 1 \<and> n_flows tab' = 1"
    by (auto simp: demo_table_def clear_where_def st dest!: unat_Suc_0_eq)
  from timeout_removes_exactly_the_expired [OF ok ok2, of "\<lambda>f. True"]
  have two: "\<exists>r t2' es.
         table_hash2_timeout (\<lambda>f. True)
             (demo_table2 [None, None, None, Some flow_a] [None, Some flow_b, None, None])
           = Some (r, t2', es)
         \<and> buckets (subtable0 t2') = no_flows \<and> buckets (subtable1 t2') = no_flows
         \<and> es = [Send_Flow_Expired flow_a, Flow_Free flow_a,
                  Send_Flow_Expired flow_b, Flow_Free flow_b]
         \<and> r = 2 \<and> fst (snd (table_hash2_stats t2')) = 0"
    by (auto simp: demo_table_def demo_table2_def clear_where_def no_flows_def
        table_hash2_stats_def table_hash_stats_def)
  from ok ok2 one two show ?thesis by blast
qed

subsection \<open>Insert, case by case\<close>

lemma table_hash_insert_cases:
  assumes "table_ok tab"
  shows "table_hash_insert tab fl =
    (case insert_case tab fl of
       Accepted_New \<Rightarrow>
         Some (1, tab\<lparr>n_flows := n_flows tab + 1,
                      buckets := (buckets tab)[find_bucket tab (key fl) := Some fl]\<rparr>, [])
     | Accepted_Replace \<Rightarrow>
         Some (1, tab\<lparr>buckets := (buckets tab)[find_bucket tab (key fl) := Some fl]\<rparr>,
               map Flow_Free (flows_of [buckets tab ! find_bucket tab (key fl)]))
     | Rejected \<Rightarrow> Some (0, tab, []))"
  using find_bucket_in_range [OF assms, of "key fl"]
  by (simp add: table_hash_insert_def insert_case_def Let_def split: option.split)

lemma find_bucket_cong:
  "crc32 tab' = crc32 tab \<Longrightarrow> bucket_mask tab' = bucket_mask tab
   \<Longrightarrow> find_bucket tab' k = find_bucket tab k"
  by (simp add: find_bucket_def)

lemma table_hash_insert_frame:
  assumes "table_hash_insert tab fl = Some (r, tab', es)"
  shows "crc32 tab' = crc32 tab \<and> bucket_mask tab' = bucket_mask tab
       \<and> length (buckets tab') = length (buckets tab)"
  using assms
  by (auto simp: table_hash_insert_def Let_def split: if_splits option.splits)

lemma table_hash_insert_ok:
  assumes "table_ok tab" "table_hash_insert tab fl = Some (r, tab', es)"
  shows "table_ok tab'"
  using assms table_hash_insert_frame [OF assms(2)] by (simp add: table_ok_def)

text \<open>
  Claim C4. Let \<open>k1\<close> and \<open>k2\<close> be distinct keys without wildcards that fall into the
  same bucket of a single-hash table, and let an insert of a flow with key \<open>k1\<close> be
  accepted (as it is on a fresh table). Then the insert of a flow with key \<open>k2\<close> is
  rejected and changes nothing, a lookup of \<open>k2\<close> finds nothing, and a lookup of \<open>k1\<close>
  still returns the first flow.
\<close>

theorem colliding_insert_is_rejected:
  assumes "table_ok tab"
    and "wildcards (key f1) = 0" and "wildcards (key f2) = 0"
    and "key f1 \<noteq> key f2"
    and "crc32 tab (key f1) AND bucket_mask tab = crc32 tab (key f2) AND bucket_mask tab"
    and "table_hash_insert tab f1 = Some (1, tab1, es1)"
  shows "table_hash_insert tab1 f2 = Some (0, tab1, [])
       \<and> table_hash_lookup tab1 (key f2) = Some None
       \<and> table_hash_lookup tab1 (key f1) = Some (Some f1)"
proof -
  let ?b = "find_bucket tab (key f1)"
  have same: "find_bucket tab (key f2) = ?b"
    using assms(5) by (simp add: find_bucket_def)
  have range: "?b < length (buckets tab)"
    using assms(1) by (rule find_bucket_in_range)
  from table_hash_insert_frame [OF assms(6)]
  have b1: "find_bucket tab1 (key f1) = ?b" and b2: "find_bucket tab1 (key f2) = ?b"
    and len: "length (buckets tab1) = length (buckets tab)"
    using same by (simp_all add: find_bucket_def)
  have stored: "buckets tab1 ! ?b = Some f1"
    using assms(2,6) range
    by (auto simp: table_hash_insert_def Let_def split: if_splits option.splits)
  show ?thesis
    using assms(2-4) range len stored
    by (simp add: table_hash_insert_def table_hash_lookup_def Let_def b1 b2)
qed

theorem colliding_insert_is_rejected_witness:
  "table_ok (demo_table 1 no_flows)
   \<and> key flow_a \<noteq> key flow_b
   \<and> table_hash_insert (demo_table 1 no_flows) flow_a
       = Some (1, demo_table 1 [None, None, None, Some flow_a], [])
   \<and> table_hash_insert (demo_table 1 [None, None, None, Some flow_a]) flow_b
       = Some (0, demo_table 1 [None, None, None, Some flow_a], [])
   \<and> table_hash_lookup (demo_table 1 [None, None, None, Some flow_a]) (key flow_b) = Some None
   \<and> table_hash_lookup (demo_table 1 [None, None, None, Some flow_a]) (key flow_a)
       = Some (Some flow_a)"
proof -
  have ok: "table_ok (demo_table 1 no_flows)"
    by (simp add: demo_table_ok no_flows_def)
  have wa: "wildcards (key flow_a) = 0" and wb: "wildcards (key flow_b) = 0"
    and ne: "key flow_a \<noteq> key flow_b"
    by (simp_all add: demo_defs)
  have coll: "crc32 (demo_table 1 no_flows) (key flow_a) AND bucket_mask (demo_table 1 no_flows)
      = crc32 (demo_table 1 no_flows) (key flow_b) AND bucket_mask (demo_table 1 no_flows)"
    by (simp add: demo_defs)
  have first: "table_hash_insert (demo_table 1 no_flows) flow_a
      = Some (1, demo_table 1 [None, None, None, Some flow_a], [])"
    by (simp add: table_hash_insert_def find_bucket_def demo_defs)
  from colliding_insert_is_rejected [OF ok wa wb ne coll first] ok ne first
  show ?thesis by simp
qed

text \<open>
  Claim C1 as stated fails: an accepted-new insert and an accepted-replace insert return
  the same value, on either flavor.
\<close>

theorem insert_result_same_for_new_and_replace:
  "insert_case (demo_table 1 no_flows) flow_a = Accepted_New
   \<and> insert_case (demo_table 1 [None, None, None, Some flow_a]) flow_a' = Accepted_Replace
   \<and> table_hash_insert (demo_table 1 no_flows) flow_a
       = Some (1, demo_table 1 [None, None, None, Some flow_a], [])
   \<and> table_hash_insert (demo_table 1 [None, None, None, Some flow_a]) flow_a'
       = Some (1, demo_table 1 [None, None, None, Some flow_a'], [Flow_Free flow_a])
   \<and> table_hash2_insert (demo_table2 no_flows no_flows) flow_a
       = Some (1, demo_table2 [None, None, None, Some flow_a] no_flows, [])
   \<and> table_hash2_insert (demo_table2 [None, None, None, Some flow_a] no_flows) flow_a'
       = Some (1, demo_table2 [None, None, None, Some flow_a'] no_flows, [Flow_Free flow_a])"
  by (simp add: insert_case_def table_hash2_insert_def table_hash_insert_def find_bucket_def
      demo_defs)

subsection \<open>Delete with an exact key\<close>

lemma flows_of_clear_bucket:
  assumes "i < length bs" "bs ! i = Some f"
  shows "length (flows_of (bs[i := None])) + 1 = length (flows_of bs)"
proof -
  have "bs = take i bs @ Some f # drop (Suc i) bs"
    using assms by (metis id_take_nth_drop)
  then have "flows_of bs = flows_of (take i bs) @ f # flows_of (drop (Suc i) bs)"
    by (metis flows_of_append flows_of.simps(3))
  moreover have "flows_of (bs[i := None]) = flows_of (take i bs) @ flows_of (drop (Suc i) bs)"
    using assms(1) by (simp add: upd_conv_take_nth_drop flows_of_append)
  ultimately show ?thesis by simp
qed

lemma table_hash_delete_exact_facts:
  assumes "table_ok tab" "wildcards k = 0"
  shows "\<exists>r tab' es. table_hash_delete fdm tab k strict = Some (r, tab', es)
           \<and> (r = 0 \<or> r = 1)
           \<and> length (flows_of (buckets tab')) + unat r = length (flows_of (buckets tab))
           \<and> length es = unat r
           \<and> n_flows tab' = n_flows tab - r"
proof (cases "buckets tab ! find_bucket tab k")
  case None
  then show ?thesis
    by (simp add: table_hash_delete_exact_spec [OF assms])
next
  case (Some f)
  with flows_of_clear_bucket [OF find_bucket_in_range [OF assms(1), of k] Some]
  show ?thesis
    by (simp add: table_hash_delete_exact_spec [OF assms])
qed

subsection \<open>A run that puts one key into both subtables\<close>

text \<open>
  On a double-hashing table whose keys \<open>key_a\<close> and \<open>key_b\<close> collide in subtable 0:
  insert a flow with \<open>key_a\<close> (it goes to subtable 0), insert a flow with \<open>key_b\<close>
  (rejected by subtable 0, it goes to subtable 1), delete \<open>key_a\<close>, insert a second flow
  with \<open>key_b\<close>: subtable 0 now has an empty bucket for it and accepts it, while the
  first flow with \<open>key_b\<close> is still in subtable 1.
\<close>

lemma demo_run_duplicates_key_b:
  "run_hash2 demo_del_matches (demo_table2 no_flows no_flows)
     [Insert flow_a, Insert flow_b, Delete key_a 0, Insert flow_b']
   = Some (demo_table2 [None, None, None, Some flow_b'] [None, Some flow_b, None, None])"
  by (simp add: apply_hash2_def table_hash2_insert_def table_hash2_delete_def
      table_hash_insert_def table_hash_delete_def do_delete_def find_bucket_def demo_defs)

text \<open>
  Claim C8 as stated fails on the double-hashing table: in the state the run above
  reaches, a delete of the exact key \<open>key_b\<close> removes two flows and returns 2.
\<close>

theorem exact_delete_removes_two:
  "run_hash2 demo_del_matches (demo_table2 no_flows no_flows)
     [Insert flow_a, Insert flow_b, Delete key_a 0, Insert flow_b']
   = Some (demo_table2 [None, None, None, Some flow_b'] [None, Some flow_b, None, None])
   \<and> wildcards key_b = 0
   \<and> table_hash2_delete demo_del_matches
       (demo_table2 [None, None, None, Some flow_b'] [None, Some flow_b, None, None]) key_b 0
     = Some (2, demo_table2 no_flows no_flows, [Flow_Free flow_b', Flow_Free flow_b])"
proof -
  have "table_hash2_delete demo_del_matches
       (demo_table2 [None, None, None, Some flow_b'] [None, Some flow_b, None, None]) key_b 0
     = Some (2, demo_table2 no_flows no_flows, [Flow_Free flow_b', Flow_Free flow_b])"
    by (simp add: table_hash2_delete_def table_hash_delete_def do_delete_def find_bucket_def
        demo_defs)
  with demo_run_duplicates_key_b show ?thesis
    by (simp add: key_b_def)
qed

subsection \<open>The flows of an updated bucket array\<close>

lemma flows_of_split:
  assumes "i < length bs"
  shows "flows_of bs = flows_of (take i bs) @ flows_of [bs ! i] @ flows_of (drop (Suc i) bs)"
proof -
  have "bs = take i bs @ [bs ! i] @ drop (Suc i) bs"
    using assms by (simp add: id_take_nth_drop [symmetric])
  then have "flows_of bs = flows_of (take i bs @ [bs ! i] @ drop (Suc i) bs)" by simp
  then show ?thesis by (simp only: flows_of_append)
qed

lemma flows_of_update:
  assumes "i < length bs"
  shows "flows_of (bs[i := x]) = flows_of (take i bs) @ flows_of [x] @ flows_of (drop (Suc i) bs)"
  using assms flows_of_split [of i "bs[i := x]"] by simp

lemma length_flows_of_fill:
  assumes "i < length bs" "bs ! i = None"
  shows "length (flows_of (bs[i := Some f])) = length (flows_of bs) + 1"
  using assms flows_of_split [OF assms(1)] flows_of_update [OF assms(1), of "Some f"] by simp

lemma length_flows_of_replace:
  assumes "i < length bs" "bs ! i = Some g"
  shows "length (flows_of (bs[i := Some f])) = length (flows_of bs)"
  using assms flows_of_split [OF assms(1)] flows_of_update [OF assms(1), of "Some f"] by simp

lemma flows_of_clear_where: "flows_of (clear_where p bs) = filter (\<lambda>f. \<not> p f) (flows_of bs)"
  by (induction bs rule: flows_of.induct) (simp_all add: clear_where_def)

lemma length_flows_of_clear_where:
  "length (flows_of (clear_where p bs)) + length (filter p (flows_of bs)) = length (flows_of bs)"
  using sum_length_filter_compl [of p "flows_of bs"] by (simp add: flows_of_clear_where)

lemma clear_where_nth:
  "i < length bs \<Longrightarrow>
   clear_where p bs ! i = (case bs ! i of None \<Rightarrow> None | Some f \<Rightarrow> if p f then None else Some f)"
  by (simp add: clear_where_def)

subsection \<open>What every mutating call preserves\<close>

text \<open>
  Insert, delete and timeout keep the size of the bucket array, keep every flow in the
  bucket its key is addressed to, and move the flow counter with the number of occupied
  buckets: the difference of the two never changes.
\<close>

lemma buckets_placed_iff:
  "buckets_placed tab \<longleftrightarrow>
     (\<forall>i f. i < length (buckets tab) \<longrightarrow> buckets tab ! i = Some f
        \<longrightarrow> find_bucket tab (key f) = i)"
  by (auto simp: buckets_placed_def split: option.splits)

lemma find_bucket_updates [simp]:
  "find_bucket (tab\<lparr>buckets := bs\<rparr>) k = find_bucket tab k"
  "find_bucket (tab\<lparr>n_flows := n\<rparr>) k = find_bucket tab k"
  by (simp_all add: find_bucket_def)

lemma nth_update_Some:
  assumes "bs[b := x] ! i = Some f"
  shows "(i = b \<and> x = Some f) \<or> bs ! i = Some f"
  using assms by (cases "i = b"; cases "b < length bs") (simp_all add: list_update_beyond)

lemma placed_update:
  assumes "buckets_placed tab" "find_bucket tab (key fl) = b"
  shows "buckets_placed (tab\<lparr>buckets := (buckets tab)[b := Some fl]\<rparr>)"
    and "buckets_placed (tab\<lparr>n_flows := n, buckets := (buckets tab)[b := Some fl]\<rparr>)"
  using assms unfolding buckets_placed_iff
  by (auto dest!: nth_update_Some)

lemma length_clear_where [simp]: "length (clear_where p bs) = length bs"
  by (simp add: clear_where_def)

lemma placed_clear:
  assumes "buckets_placed tab"
  shows "buckets_placed (tab\<lparr>n_flows := n, buckets := clear_where p (buckets tab)\<rparr>)"
    and "buckets_placed (tab\<lparr>n_flows := n, buckets := (buckets tab)[b := None]\<rparr>)"
  using assms unfolding buckets_placed_iff
  by (auto simp: clear_where_nth dest!: nth_update_Some split: option.splits if_splits)

lemma insert_preserves:
  assumes "table_ok tab" "buckets_placed tab"
  shows "\<exists>r tab' es. table_hash_insert tab fl = Some (r, tab', es) \<and> table_ok tab'
           \<and> buckets_placed tab' \<and> counter_offset tab' = counter_offset tab"
proof (cases "insert_case tab fl")
  case Accepted_New
  then have "buckets tab ! find_bucket tab (key fl) = None"
    by (auto simp: insert_case_def split: if_splits option.splits)
  from length_flows_of_fill [OF find_bucket_in_range [OF assms(1)] this, of fl]
  show ?thesis
    using assms Accepted_New placed_update(2) [OF assms(2) refl]
    by (simp add: table_hash_insert_cases counter_offset_def table_ok_def)
next
  case Accepted_Replace
  then obtain g where "buckets tab ! find_bucket tab (key fl) = Some g"
    by (auto simp: insert_case_def split: if_splits option.splits)
  from length_flows_of_replace [OF find_bucket_in_range [OF assms(1)] this, of fl]
  show ?thesis
    using assms Accepted_Replace placed_update(1) [OF assms(2) refl]
    by (simp add: table_hash_insert_cases counter_offset_def table_ok_def)
next
  case Rejected
  then show ?thesis using assms by (simp add: table_hash_insert_cases)
qed

lemma delete_preserves:
  assumes "table_ok tab" "buckets_placed tab"
  shows "\<exists>r tab' es. table_hash_delete fdm tab k strict = Some (r, tab', es) \<and> table_ok tab'
           \<and> buckets_placed tab' \<and> counter_offset tab' = counter_offset tab"
proof (cases "wildcards k = 0")
  case True
  show ?thesis
  proof (cases "buckets tab ! find_bucket tab k")
    case None
    then show ?thesis using assms True by (simp add: table_hash_delete_exact_spec)
  next
    case (Some f)
    from flows_of_clear_bucket [OF find_bucket_in_range [OF assms(1)] Some]
    have "of_nat (length (flows_of (buckets tab)))
        = (of_nat (length (flows_of ((buckets tab)[find_bucket tab k := None]))) + 1 :: c_uint)"
      by (metis of_nat_Suc Suc_eq_plus1 add.commute)
    then show ?thesis
      using assms True Some placed_clear(2) [OF assms(2)]
      by (simp add: table_hash_delete_exact_spec counter_offset_def table_ok_def)
  qed
next
  case False
  let ?p = "\<lambda>fl. fdm (key fl) k strict"
  have "of_nat (length (flows_of (buckets tab)))
      = (of_nat (length (flows_of (clear_where ?p (buckets tab))))
          + of_nat (length (filter ?p (flows_of (buckets tab)))) :: c_uint)"
    by (metis length_flows_of_clear_where of_nat_add)
  then show ?thesis
    using assms False placed_clear(1) [OF assms(2)]
    by (simp add: table_hash_delete_wild_spec counter_offset_def table_ok_def clear_where_def)
qed

lemma timeout_preserves:
  assumes "table_ok tab" "buckets_placed tab"
  shows "\<exists>r tab' es. table_hash_timeout expired tab = Some (r, tab', es) \<and> table_ok tab'
           \<and> buckets_placed tab' \<and> counter_offset tab' = counter_offset tab"
proof -
  have "of_nat (length (flows_of (buckets tab)))
      = (of_nat (length (flows_of (clear_where expired (buckets tab))))
          + of_nat (length (filter expired (flows_of (buckets tab)))) :: c_uint)"
    by (metis length_flows_of_clear_where of_nat_add)
  then show ?thesis
    using assms placed_clear(1) [OF assms(2)]
    by (simp add: table_hash_timeout_spec counter_offset_def table_ok_def clear_where_def)
qed

lemma apply_hash_preserves:
  assumes "table_ok tab" "buckets_placed tab"
  shows "\<exists>tab'. apply_hash fdm tab x = Some tab' \<and> table_ok tab'
           \<and> buckets_placed tab' \<and> counter_offset tab' = counter_offset tab"
proof (cases x)
  case (Insert fl)
  with insert_preserves [OF assms, of fl] show ?thesis
    by (auto simp: apply_hash_def)
next
  case (Delete k strict)
  with delete_preserves [OF assms, of fdm k strict] show ?thesis
    by (auto simp: apply_hash_def)
next
  case (Timeout expired)
  with timeout_preserves [OF assms, of expired] show ?thesis
    by (auto simp: apply_hash_def)
qed

lemma run_hash_preserves:
  assumes "table_ok tab" "buckets_placed tab"
  shows "\<exists>tab'. run_hash fdm tab xs = Some tab' \<and> table_ok tab'
           \<and> buckets_placed tab' \<and> counter_offset tab' = counter_offset tab"
  using assms
proof (induction xs arbitrary: tab)
  case Nil
  then show ?case by simp
next
  case (Cons x xs)
  from apply_hash_preserves [OF Cons.prems, of fdm x]
  obtain tab1 where step: "apply_hash fdm tab x = Some tab1" "table_ok tab1"
    "buckets_placed tab1" "counter_offset tab1 = counter_offset tab"
    by blast
  from Cons.IH [OF step(2,3)] step(1,4) show ?case by simp
qed

subsection \<open>Creating a table\<close>

lemma table_hash_create_fresh:
  assumes "table_hash_create crc32_init th_mem calloc_ok polynomial n_buckets = Created tab"
    and "n_buckets \<noteq> 0"
  shows "table_ok tab \<and> buckets_placed tab \<and> table_empty tab
       \<and> (\<exists>old_contents. th_mem = Some old_contents \<and> n_flows tab = old_contents)"
proof -
  from assms(1) obtain old_contents where mem: "th_mem = Some old_contents"
    and tab: "tab = \<lparr>crc32 = crc32_init polynomial, n_flows = old_contents,
                     bucket_mask = n_buckets - 1, buckets = replicate (unat n_buckets) None\<rparr>"
    by (auto simp: table_hash_create_def split: option.splits if_splits)
  have "unat (n_buckets - 1) + 1 = unat n_buckets"
    using assms(2) by (simp add: unat_minus_one unat_gt_0 [symmetric] Suc_leI)
  moreover have "n_buckets - 1 \<noteq> - 1"
    using assms(2) by simp
  moreover have "flows_of (replicate n None) = []" for n
    by (induction n) simp_all
  ultimately show ?thesis
    using mem tab by (simp add: table_ok_def buckets_placed_def table_empty_def)
qed

text \<open>
  Claim C5, at a concrete input. \<^verbatim>\<open>table_hash_create\<close> never assigns \<^verbatim>\<open>n_flows\<close>: the
  counter of a fresh table is whatever the block returned by \<^verbatim>\<open>malloc\<close> held. With a
  block that held 7, the fresh table has no occupied bucket and reports 7 flows, and
  after one accepted insert it has one occupied bucket and reports 8.
\<close>

theorem fresh_table_counts_from_old_memory:
  "table_hash_create demo_crc32_init (Some 7) True 1 4
     = Created \<lparr>crc32 = demo_crc32_init 1, n_flows = 7, bucket_mask = 3, buckets = no_flows\<rparr>
   \<and> length (flows_of no_flows) = 0
   \<and> run_hash demo_del_matches
        \<lparr>crc32 = demo_crc32_init 1, n_flows = 7, bucket_mask = 3, buckets = no_flows\<rparr>
        [Insert flow_a]
     = Some \<lparr>crc32 = demo_crc32_init 1, n_flows = 8, bucket_mask = 3,
              buckets = [None, None, None, Some flow_a]\<rparr>
   \<and> length (flows_of [None, None, None, Some flow_a]) = 1"
proof -
  have "replicate 4 None = no_flows"
    by (simp add: no_flows_def eval_nat_numeral)
  then have "replicate (unat (4 :: c_uint)) None = no_flows"
    by simp
  then show ?thesis
    by (simp add: table_hash_create_def apply_hash_def table_hash_insert_def find_bucket_def
        demo_defs)
qed

text \<open>
  What does hold of every state reached from a fresh table: the bucket array keeps
  its size, every occupied bucket holds a flow addressed to it, and the counter is the
  number of occupied buckets plus what the counter was when the table was created.
\<close>

lemma reachable_single_table:
  assumes "table_hash_create crc32_init (Some old_contents) calloc_ok polynomial n_buckets
             = Created tab0"
    and "n_buckets \<noteq> 0"
  shows "\<exists>tab. run_hash fdm tab0 xs = Some tab \<and> table_ok tab \<and> buckets_placed tab
           \<and> n_flows tab = old_contents + of_nat (length (flows_of (buckets tab)))"
proof -
  from table_hash_create_fresh [OF assms]
  have fresh: "table_ok tab0" "buckets_placed tab0" "table_empty tab0" "n_flows tab0 = old_contents"
    by simp_all
  from run_hash_preserves [OF fresh(1,2), of fdm xs]
  obtain tab where run: "run_hash fdm tab0 xs = Some tab" "table_ok tab" "buckets_placed tab"
    "counter_offset tab = counter_offset tab0"
    by blast
  have start: "counter_offset tab0 = old_contents"
    using fresh(3,4) by (simp add: counter_offset_def table_empty_def)
  have "n_flows tab = counter_offset tab + of_nat (length (flows_of (buckets tab)))"
    by (simp add: counter_offset_def)
  with run(4) start have "n_flows tab = old_contents + of_nat (length (flows_of (buckets tab)))"
    by (simp only:)
  with run(1-3) show ?thesis by blast
qed

subsection \<open>The assertion of table_hash_create\<close>

lemma and_pred_nat:
  fixes n :: nat
  assumes "0 < n"
  shows "n AND (n - 1) = 0 \<longleftrightarrow> (\<exists>k. n = 2 ^ k)"
  using assms
proof (induction n rule: less_induct)
  case (less n)
  show ?case
  proof (cases "even n")
    case True
    then obtain m where m: "n = 2 * m" by (auto elim: evenE)
    with less.prems have mpos: "0 < m" by simp
    have "(n - 1) div 2 = m - 1" using m mpos by simp
    moreover have "n div 2 = m" using m by simp
    ultimately have "n AND (n - 1) = 2 * (m AND (m - 1))"
      using True by (subst and_nat_rec) simp
    then have "n AND (n - 1) = 0 \<longleftrightarrow> (\<exists>k. m = 2 ^ k)"
      using less.IH [of m] m mpos by simp
    also have "\<dots> \<longleftrightarrow> (\<exists>k. n = 2 ^ k)"
    proof
      assume "\<exists>k. m = 2 ^ k"
      then obtain k where "m = 2 ^ k" ..
      then have "n = 2 ^ Suc k" using m by simp
      then show "\<exists>k. n = 2 ^ k" ..
    next
      assume "\<exists>k. n = 2 ^ k"
      then obtain k where k: "n = 2 ^ k" ..
      with True less.prems have "k \<noteq> 0" by (cases k) auto
      then obtain j where "k = Suc j" by (cases k) auto
      with k m have "m = 2 ^ j" by simp
      then show "\<exists>k. m = 2 ^ k" ..
    qed
    finally show ?thesis .
  next
    case False
    then obtain m where m: "n = 2 * m + 1" by (auto elim: oddE)
    have "(n - 1) div 2 = m" "n div 2 = m" "even (n - 1)" using m by simp_all
    then have "n AND (n - 1) = 2 * (m AND m)"
      by (subst and_nat_rec) simp
    then have "n AND (n - 1) = 0 \<longleftrightarrow> m = 0" by simp
    also have "\<dots> \<longleftrightarrow> (\<exists>k. n = 2 ^ k)"
    proof
      assume "m = 0"
      then have "n = 2 ^ 0" using m by simp
      then show "\<exists>k. n = 2 ^ k" ..
    next
      assume "\<exists>k. n = 2 ^ k"
      then obtain k where k: "n = 2 ^ k" ..
      with False have "k = 0" by (cases k) auto
      with k m show "m = 0" by simp
    qed
    finally show ?thesis .
  qed
qed

lemma unat_two_power:
  assumes "k < 32"
  shows "unat (2 ^ k :: c_uint) = 2 ^ k"
proof -
  have "(2 :: nat) ^ k < 2 ^ 32"
    using assms by (intro power_strict_increasing) simp_all
  moreover have "(2 ^ k :: c_uint) = of_nat (2 ^ k)" by simp
  ultimately show ?thesis
    by (simp only: unat_of_nat) simp
qed

lemma and_pred_word:
  fixes n :: c_uint
  assumes "n \<noteq> 0"
  shows "n AND (n - 1) = 0 \<longleftrightarrow> (\<exists>k < 32. n = 2 ^ k)"
proof -
  have pos: "0 < unat n" using assms by (simp add: unat_gt_0)
  have "n AND (n - 1) = 0 \<longleftrightarrow> unat (n AND (n - 1)) = 0"
    by (simp add: unat_eq_0)
  also have "\<dots> \<longleftrightarrow> unat n AND (unat n - 1) = 0"
    using assms by (simp add: unsigned_and_eq unat_minus_one)
  also have "\<dots> \<longleftrightarrow> (\<exists>k. unat n = 2 ^ k)"
    using pos by (rule and_pred_nat)
  also have "\<dots> \<longleftrightarrow> (\<exists>k < 32. n = 2 ^ k)"
  proof
    assume "\<exists>k. unat n = 2 ^ k"
    then obtain k where k: "unat n = 2 ^ k" ..
    have bound: "unat n < 2 ^ 32" using unsigned_less [of n] by simp
    have small: "k < 32"
    proof (rule ccontr)
      assume "\<not> k < 32"
      then have "(2 :: nat) ^ 32 \<le> 2 ^ k" by (intro power_increasing) simp_all
      with bound k show False by simp
    qed
    from k small have "n = 2 ^ k"
      by (simp add: word_unat_eq_iff unat_two_power)
    with small show "\<exists>k < 32. n = 2 ^ k" by blast
  next
    assume "\<exists>k < 32. n = 2 ^ k"
    then obtain k where "k < 32" "n = 2 ^ k" by blast
    then have "unat n = 2 ^ k" by (simp add: unat_two_power)
    then show "\<exists>k. unat n = 2 ^ k" ..
  qed
  finally show ?thesis .
qed

text \<open>
  With the table block allocated, the assertion fails for every bucket count that is
  neither zero nor a power of two, and for no other.
\<close>

lemma table_hash_create_asserts:
  "table_hash_create crc32_init (Some old_contents) calloc_ok polynomial n_buckets = Assert_Failed
   \<longleftrightarrow> n_buckets \<noteq> 0 \<and> \<not> power_of_two n_buckets"
proof (cases "n_buckets = 0")
  case True
  then show ?thesis by (simp add: table_hash_create_def)
next
  case False
  have "power_of_two n_buckets \<longleftrightarrow> (\<exists>k < 32. n_buckets = 2 ^ k)"
    by (auto simp: power_of_two_def)
  with and_pred_word [OF False] False show ?thesis
    by (simp add: table_hash_create_def)
qed

text \<open>
  Claim C3, at a concrete input. Zero is not a power of two, yet
  \<^verbatim>\<open>0 & (0 - 1)\<close> is zero and the assertion holds: the call goes on to \<^verbatim>\<open>calloc(0, ...)\<close>
  and, when that returns a block, builds a table with \<^verbatim>\<open>bucket_mask = 0xffffffff\<close> over
  an array of no buckets; when it returns \<^verbatim>\<open>NULL\<close>, the call returns \<^verbatim>\<open>NULL\<close>. In the
  table so built the first insert addresses a bucket outside the array.
\<close>

theorem create_with_zero_buckets_is_not_rejected:
  "table_hash_create demo_crc32_init (Some 0) True 1 0
     = Created \<lparr>crc32 = demo_crc32_init 1, n_flows = 0, bucket_mask = - 1, buckets = []\<rparr>
   \<and> table_hash_create demo_crc32_init (Some 0) False 1 0 = Returned_Null
   \<and> table_hash_insert
        \<lparr>crc32 = demo_crc32_init 1, n_flows = 0, bucket_mask = - 1, buckets = []\<rparr> flow_a = None"
  by (simp add: table_hash_create_def table_hash_insert_def demo_defs)

subsection \<open>Keys in the two subtables\<close>

lemma set_flows_of: "set (flows_of bs) = {f. Some f \<in> set bs}"
  by (induction bs rule: flows_of.induct) auto

lemma flows_of_fill_subset: "set (flows_of (bs[i := Some fl])) \<subseteq> insert fl (set (flows_of bs))"
  using set_update_subset_insert [of bs i "Some fl"] by (auto simp: set_flows_of)

lemma flows_of_clear_subset: "set (flows_of (bs[i := None])) \<subseteq> set (flows_of bs)"
  using set_update_subset_insert [of bs i None] by (auto simp: set_flows_of)

lemma flows_of_clear_where_subset: "set (flows_of (clear_where p bs)) \<subseteq> set (flows_of bs)"
  by (simp add: flows_of_clear_where)

lemma empty_table_placed:
  assumes "table_empty tab"
  shows "buckets_placed tab"
proof -
  have "Some f \<notin> set (buckets tab)" for f
    using assms set_flows_of [of "buckets tab"] by (simp add: table_empty_def)
  then show ?thesis
    unfolding buckets_placed_iff by (metis nth_mem)
qed

lemma fallback_only_separates:
  assumes "buckets_placed (subtable0 t2)" "fallback_only t2"
  shows "\<not> (resides (subtable0 t2) k \<and> resides (subtable1 t2) k)"
proof
  assume both: "resides (subtable0 t2) k \<and> resides (subtable1 t2) k"
  then obtain g0 where g0: "Some g0 \<in> set (buckets (subtable0 t2))" "key g0 = k"
    by (auto simp: resides_def set_flows_of)
  then obtain i where i: "i < length (buckets (subtable0 t2))" "buckets (subtable0 t2) ! i = Some g0"
    by (auto simp: in_set_conv_nth)
  with assms(1) g0(2) have at: "find_bucket (subtable0 t2) k = i"
    by (auto simp: buckets_placed_iff)
  from both obtain f where f: "f \<in> set (flows_of (buckets (subtable1 t2)))" "key f = k"
    by (auto simp: resides_def)
  with assms(2) have "case buckets (subtable0 t2) ! find_bucket (subtable0 t2) k of
      None \<Rightarrow> False | Some g \<Rightarrow> key g \<noteq> k"
    by (auto simp: fallback_only_def)
  with at i(2) g0(2) show False by simp
qed

lemma table_hash2_insert_preserves:
  assumes "table2_ok t2" "buckets_placed (subtable0 t2)" "fallback_only t2"
  shows "\<exists>r t2' es. table_hash2_insert t2 fl = Some (r, t2', es) \<and> table2_ok t2'
           \<and> buckets_placed (subtable0 t2') \<and> fallback_only t2'"
proof -
  let ?s0 = "subtable0 t2" and ?s1 = "subtable1 t2"
  let ?b0 = "find_bucket ?s0 (key fl)" and ?b1 = "find_bucket ?s1 (key fl)"
  from assms(1) have ok0: "table_ok ?s0" and ok1: "table_ok ?s1"
    by (simp_all add: table2_ok_def)
  have blocked: "case buckets ?s0 ! find_bucket ?s0 (key f) of None \<Rightarrow> False | Some g \<Rightarrow> key g \<noteq> key f"
    if "f \<in> set (flows_of (buckets ?s1))" for f
    using assms(3) that by (auto simp: fallback_only_def)
  show ?thesis
  proof (cases "insert_case ?s0 fl")
    case Accepted_New
    then have empty: "buckets ?s0 ! ?b0 = None"
      by (auto simp: insert_case_def split: if_splits option.splits)
    have "fallback_only (t2\<lparr>subtable0 := ?s0\<lparr>n_flows := n_flows ?s0 + 1,
        buckets := (buckets ?s0)[?b0 := Some fl]\<rparr>\<rparr>)"
      unfolding fallback_only_def
    proof
      fix f assume "f \<in> set (flows_of (buckets (subtable1 (t2\<lparr>subtable0 := ?s0\<lparr>n_flows := n_flows ?s0 + 1,
        buckets := (buckets ?s0)[?b0 := Some fl]\<rparr>\<rparr>))))"
      then have f: "f \<in> set (flows_of (buckets ?s1))" by simp
      from blocked [OF f] empty have "find_bucket ?s0 (key f) \<noteq> ?b0"
        by (auto split: option.splits)
      with blocked [OF f]
      show "case buckets (subtable0 (t2\<lparr>subtable0 := ?s0\<lparr>n_flows := n_flows ?s0 + 1,
                buckets := (buckets ?s0)[?b0 := Some fl]\<rparr>\<rparr>))
              ! find_bucket (subtable0 (t2\<lparr>subtable0 := ?s0\<lparr>n_flows := n_flows ?s0 + 1,
                buckets := (buckets ?s0)[?b0 := Some fl]\<rparr>\<rparr>)) (key f) of
            None \<Rightarrow> False | Some g \<Rightarrow> key g \<noteq> key f"
        by simp
    qed
    then show ?thesis
      using Accepted_New ok0 ok1 placed_update(2) [OF assms(2) refl, of fl]
      by (simp add: table_hash2_insert_def table_hash_insert_cases table2_ok_def table_ok_def)
  next
    case Accepted_Replace
    then obtain g0 where old: "buckets ?s0 ! ?b0 = Some g0" "key g0 = key fl"
      by (auto simp: insert_case_def split: if_splits option.splits)
    have "fallback_only (t2\<lparr>subtable0 := ?s0\<lparr>buckets := (buckets ?s0)[?b0 := Some fl]\<rparr>\<rparr>)"
      unfolding fallback_only_def
    proof
      fix f assume "f \<in> set (flows_of (buckets (subtable1
        (t2\<lparr>subtable0 := ?s0\<lparr>buckets := (buckets ?s0)[?b0 := Some fl]\<rparr>\<rparr>))))"
      then have f: "f \<in> set (flows_of (buckets ?s1))" by simp
      show "case buckets (subtable0 (t2\<lparr>subtable0 := ?s0\<lparr>buckets := (buckets ?s0)[?b0 := Some fl]\<rparr>\<rparr>))
              ! find_bucket (subtable0 (t2\<lparr>subtable0 := ?s0\<lparr>buckets := (buckets ?s0)[?b0 := Some fl]\<rparr>\<rparr>))
                  (key f) of
            None \<Rightarrow> False | Some g \<Rightarrow> key g \<noteq> key f"
      proof (cases "find_bucket ?s0 (key f) = ?b0")
        case True
        with blocked [OF f] old have "key fl \<noteq> key f" by simp
        with True find_bucket_in_range [OF ok0, of "key fl"] show ?thesis by simp
      next
        case False
        with blocked [OF f] show ?thesis by simp
      qed
    qed
    then show ?thesis
      using Accepted_Replace ok0 ok1 placed_update(1) [OF assms(2) refl, of fl]
      by (simp add: table_hash2_insert_def table_hash_insert_cases table2_ok_def table_ok_def)
  next
    case Rejected
    note rejected0 = this
    show ?thesis
    proof (cases "insert_case ?s1 fl = Rejected")
      case True
      with rejected0 assms ok0 ok1 show ?thesis
        by (simp add: table_hash2_insert_def table_hash_insert_cases)
    next
      case False
      then have "wildcards (key fl) = 0"
        by (auto simp: insert_case_def split: if_splits)
      with rejected0 have blocked_fl:
        "case buckets ?s0 ! ?b0 of None \<Rightarrow> False | Some g \<Rightarrow> key g \<noteq> key fl"
        by (auto simp: insert_case_def split: if_splits option.splits)
      have step: "fallback_only (t2\<lparr>subtable0 := ?s0, subtable1 := s1'\<rparr>)"
        if "set (flows_of (buckets s1')) \<subseteq> insert fl (set (flows_of (buckets ?s1)))" for s1'
        unfolding fallback_only_def
      proof
        fix f assume "f \<in> set (flows_of (buckets (subtable1 (t2\<lparr>subtable0 := ?s0, subtable1 := s1'\<rparr>))))"
        with that have "f = fl \<or> f \<in> set (flows_of (buckets ?s1))" by auto
        with blocked blocked_fl
        show "case buckets (subtable0 (t2\<lparr>subtable0 := ?s0, subtable1 := s1'\<rparr>))
                ! find_bucket (subtable0 (t2\<lparr>subtable0 := ?s0, subtable1 := s1'\<rparr>)) (key f) of
              None \<Rightarrow> False | Some g \<Rightarrow> key g \<noteq> key f"
          by auto
      qed
      from False show ?thesis
      proof (cases "insert_case ?s1 fl")
        case Accepted_New
        from step [of "?s1\<lparr>n_flows := n_flows ?s1 + 1, buckets := (buckets ?s1)[?b1 := Some fl]\<rparr>"]
          flows_of_fill_subset [of "buckets ?s1" ?b1 fl]
        show ?thesis
          using rejected0 Accepted_New ok0 ok1 assms(2)
          by (simp add: table_hash2_insert_def table_hash_insert_cases table2_ok_def table_ok_def)
      next
        case Accepted_Replace
        from step [of "?s1\<lparr>buckets := (buckets ?s1)[?b1 := Some fl]\<rparr>"]
          flows_of_fill_subset [of "buckets ?s1" ?b1 fl]
        show ?thesis
          using rejected0 Accepted_Replace ok0 ok1 assms(2)
          by (simp add: table_hash2_insert_def table_hash_insert_cases table2_ok_def table_ok_def)
      qed simp
    qed
  qed
qed


lemma table_hash_delete_shrinks:
  assumes "table_ok tab"
  shows "\<exists>r tab' es. table_hash_delete fdm tab k strict = Some (r, tab', es) \<and> table_ok tab'
           \<and> set (flows_of (buckets tab')) \<subseteq> set (flows_of (buckets tab))"
proof (cases "wildcards k = 0")
  case True
  with assms flows_of_clear_subset [of "buckets tab" "find_bucket tab k"] show ?thesis
    by (simp add: table_hash_delete_exact_spec table_ok_def split: option.split)
next
  case False
  with assms flows_of_clear_where_subset [of "\<lambda>fl. fdm (key fl) k strict" "buckets tab"]
  show ?thesis
    by (simp add: table_hash_delete_wild_spec table_ok_def)
qed

lemma table_hash_timeout_shrinks:
  assumes "table_ok tab"
  shows "\<exists>r tab' es. table_hash_timeout expired tab = Some (r, tab', es) \<and> table_ok tab'
           \<and> set (flows_of (buckets tab')) \<subseteq> set (flows_of (buckets tab))"
  using assms flows_of_clear_where_subset [of expired "buckets tab"]
  by (simp add: table_hash_timeout_spec table_ok_def)

lemma removal_shrinks:
  assumes "table2_ok t2" "\<not> is_insert x"
  shows "\<exists>t2'. apply_hash2 fdm t2 x = Some t2' \<and> table2_ok t2'
           \<and> set (flows_of (buckets (subtable0 t2'))) \<subseteq> set (flows_of (buckets (subtable0 t2)))
           \<and> set (flows_of (buckets (subtable1 t2'))) \<subseteq> set (flows_of (buckets (subtable1 t2)))"
proof (cases x)
  case (Insert fl)
  with assms(2) show ?thesis by simp
next
  case (Delete k strict)
  from assms(1) have ok0: "table_ok (subtable0 t2)" and ok1: "table_ok (subtable1 t2)"
    by (simp_all add: table2_ok_def)
  from table_hash_delete_shrinks [OF ok0, of fdm k strict]
  obtain r0 s0 es0 where d0: "table_hash_delete fdm (subtable0 t2) k strict = Some (r0, s0, es0)"
    "table_ok s0" "set (flows_of (buckets s0)) \<subseteq> set (flows_of (buckets (subtable0 t2)))"
    by blast
  from table_hash_delete_shrinks [OF ok1, of fdm k strict]
  obtain r1 s1 es1 where d1: "table_hash_delete fdm (subtable1 t2) k strict = Some (r1, s1, es1)"
    "table_ok s1" "set (flows_of (buckets s1)) \<subseteq> set (flows_of (buckets (subtable1 t2)))"
    by blast
  from Delete d0 d1 show ?thesis
    by (simp add: apply_hash2_def table_hash2_delete_def table2_ok_def)
next
  case (Timeout expired)
  from assms(1) have ok0: "table_ok (subtable0 t2)" and ok1: "table_ok (subtable1 t2)"
    by (simp_all add: table2_ok_def)
  from table_hash_timeout_shrinks [OF ok0, of expired]
  obtain r0 s0 es0 where d0: "table_hash_timeout expired (subtable0 t2) = Some (r0, s0, es0)"
    "table_ok s0" "set (flows_of (buckets s0)) \<subseteq> set (flows_of (buckets (subtable0 t2)))"
    by blast
  from table_hash_timeout_shrinks [OF ok1, of expired]
  obtain r1 s1 es1 where d1: "table_hash_timeout expired (subtable1 t2) = Some (r1, s1, es1)"
    "table_ok s1" "set (flows_of (buckets s1)) \<subseteq> set (flows_of (buckets (subtable1 t2)))"
    by blast
  from Timeout d0 d1 show ?thesis
    by (simp add: apply_hash2_def table_hash2_timeout_def table2_ok_def)
qed

lemma run_hash2_append:
  "run_hash2 fdm t2 (xs @ ys) =
     (case run_hash2 fdm t2 xs of None \<Rightarrow> None | Some t2' \<Rightarrow> run_hash2 fdm t2' ys)"
  by (induction xs arbitrary: t2) (simp_all split: option.split)

lemma run_inserts_preserves:
  assumes "table2_ok t2" "buckets_placed (subtable0 t2)" "fallback_only t2"
  shows "\<exists>t2'. run_hash2 fdm t2 (map Insert fls) = Some t2' \<and> table2_ok t2'
           \<and> buckets_placed (subtable0 t2') \<and> fallback_only t2'"
  using assms
proof (induction fls arbitrary: t2)
  case Nil
  then show ?case by simp
next
  case (Cons fl fls)
  from table_hash2_insert_preserves [OF Cons.prems, of fl]
  obtain r t2a es where step: "table_hash2_insert t2 fl = Some (r, t2a, es)" "table2_ok t2a"
    "buckets_placed (subtable0 t2a)" "fallback_only t2a"
    by blast
  from Cons.IH [OF step(2-4)] step(1) show ?case
    by (simp add: apply_hash2_def)
qed

lemma run_removals_shrinks:
  assumes "table2_ok t2" "\<forall>x \<in> set xs. \<not> is_insert x"
  shows "\<exists>t2'. run_hash2 fdm t2 xs = Some t2' \<and> table2_ok t2'
           \<and> set (flows_of (buckets (subtable0 t2'))) \<subseteq> set (flows_of (buckets (subtable0 t2)))
           \<and> set (flows_of (buckets (subtable1 t2'))) \<subseteq> set (flows_of (buckets (subtable1 t2)))"
  using assms
proof (induction xs arbitrary: t2)
  case Nil
  then show ?case by simp
next
  case (Cons x xs)
  from Cons.prems(2) have x: "\<not> is_insert x" and xs: "\<forall>x \<in> set xs. \<not> is_insert x"
    by simp_all
  from removal_shrinks [OF Cons.prems(1) x, of fdm]
  obtain t2a where step: "apply_hash2 fdm t2 x = Some t2a" "table2_ok t2a"
    "set (flows_of (buckets (subtable0 t2a))) \<subseteq> set (flows_of (buckets (subtable0 t2)))"
    "set (flows_of (buckets (subtable1 t2a))) \<subseteq> set (flows_of (buckets (subtable1 t2)))"
    by blast
  from Cons.IH [OF step(2) xs]
  obtain t2b where rest: "run_hash2 fdm t2a xs = Some t2b" "table2_ok t2b"
    "set (flows_of (buckets (subtable0 t2b))) \<subseteq> set (flows_of (buckets (subtable0 t2a)))"
    "set (flows_of (buckets (subtable1 t2b))) \<subseteq> set (flows_of (buckets (subtable1 t2a)))"
    by blast
  from step rest show ?case by auto
qed

text \<open>
  Starting from an empty double-hashing table, after any sequence of inserts followed
  by any sequence of deletes and timeouts, no key resides in both subtables.
\<close>

lemma inserts_then_removals_keep_keys_apart:
  assumes "table2_ok t2"
    and "table_empty (subtable0 t2)" and "table_empty (subtable1 t2)"
    and "\<forall>x \<in> set removals. \<not> is_insert x"
  shows "\<exists>t2'. run_hash2 fdm t2 (map Insert fls @ removals) = Some t2'
           \<and> (\<forall>k. \<not> (resides (subtable0 t2') k \<and> resides (subtable1 t2') k))"
proof -
  have "buckets_placed (subtable0 t2)"
    using assms(2) by (rule empty_table_placed)
  moreover have "fallback_only t2"
    using assms(3) by (simp add: fallback_only_def table_empty_def)
  ultimately obtain t2a where ins: "run_hash2 fdm t2 (map Insert fls) = Some t2a" "table2_ok t2a"
    "buckets_placed (subtable0 t2a)" "fallback_only t2a"
    using run_inserts_preserves [OF assms(1), of fdm fls] by blast
  from run_removals_shrinks [OF ins(2) assms(4), of fdm]
  obtain t2b where rem: "run_hash2 fdm t2a removals = Some t2b"
    "set (flows_of (buckets (subtable0 t2b))) \<subseteq> set (flows_of (buckets (subtable0 t2a)))"
    "set (flows_of (buckets (subtable1 t2b))) \<subseteq> set (flows_of (buckets (subtable1 t2a)))"
    by blast
  have "\<not> (resides (subtable0 t2b) k \<and> resides (subtable1 t2b) k)" for k
    using fallback_only_separates [OF ins(3,4), of k] rem(2,3)
    by (auto simp: resides_def)
  with ins(1) rem(1) show ?thesis
    by (simp add: run_hash2_append)
qed

text \<open>
  Claim C2 as stated fails: the run of insert, insert, delete, insert above starts from
  the empty table and ends in a state in which \<open>key_b\<close> resides in both subtables and is
  found by a lookup in each of them.
\<close>

theorem key_in_both_subtables:
  "table_empty (subtable0 (demo_table2 no_flows no_flows))
   \<and> table_empty (subtable1 (demo_table2 no_flows no_flows))
   \<and> run_hash2 demo_del_matches (demo_table2 no_flows no_flows)
        [Insert flow_a, Insert flow_b, Delete key_a 0, Insert flow_b']
      = Some (demo_table2 [None, None, None, Some flow_b'] [None, Some flow_b, None, None])
   \<and> resides (subtable0 (demo_table2 [None, None, None, Some flow_b'] [None, Some flow_b, None, None]))
        key_b
   \<and> resides (subtable1 (demo_table2 [None, None, None, Some flow_b'] [None, Some flow_b, None, None]))
        key_b
   \<and> table_hash_lookup
        (subtable0 (demo_table2 [None, None, None, Some flow_b'] [None, Some flow_b, None, None])) key_b
      = Some (Some flow_b')
   \<and> table_hash_lookup
        (subtable1 (demo_table2 [None, None, None, Some flow_b'] [None, Some flow_b, None, None])) key_b
      = Some (Some flow_b)"
proof -
  have "resides (subtable0 (demo_table2 [None, None, None, Some flow_b'] [None, Some flow_b, None, None]))
        key_b"
    and "resides (subtable1 (demo_table2 [None, None, None, Some flow_b'] [None, Some flow_b, None, None]))
        key_b"
    by (simp_all add: resides_def demo_table2_def demo_table_def flow_b_def flow_b'_def)
  moreover have "table_hash_lookup
        (subtable0 (demo_table2 [None, None, None, Some flow_b'] [None, Some flow_b, None, None])) key_b
      = Some (Some flow_b')"
    and "table_hash_lookup
        (subtable1 (demo_table2 [None, None, None, Some flow_b'] [None, Some flow_b, None, None])) key_b
      = Some (Some flow_b)"
    by (simp_all add: table_hash_lookup_def find_bucket_def demo_defs)
  moreover have "table_empty (subtable0 (demo_table2 no_flows no_flows))"
    and "table_empty (subtable1 (demo_table2 no_flows no_flows))"
    by (simp_all add: table_empty_def demo_table2_def demo_table_def no_flows_def)
  ultimately show ?thesis
    using demo_run_duplicates_key_b by simp
qed

subsection \<open>Lookup\<close>

lemma table_hash_lookup_total:
  assumes "table_ok tab"
  shows "table_hash_lookup tab k =
     Some (case buckets tab ! find_bucket tab k of
             None \<Rightarrow> None
           | Some fl \<Rightarrow> if key fl = k then Some fl else None)"
  using find_bucket_in_range [OF assms, of k]
  by (simp add: table_hash_lookup_def Let_def split: option.split)

text \<open>
  In a table whose flows sit in the buckets their keys are addressed to, a key is found
  by a lookup exactly when it resides in the table.
\<close>

lemma lookup_finds_residents:
  assumes "table_ok tab" "buckets_placed tab"
  shows "(\<exists>fl. table_hash_lookup tab k = Some (Some fl)) \<longleftrightarrow> resides tab k"
proof
  assume "\<exists>fl. table_hash_lookup tab k = Some (Some fl)"
  then obtain fl where "buckets tab ! find_bucket tab k = Some fl" "key fl = k"
    by (auto simp: table_hash_lookup_total [OF assms(1)] split: option.splits if_splits)
  with find_bucket_in_range [OF assms(1), of k] have "Some fl \<in> set (buckets tab)"
    by (metis nth_mem)
  with \<open>key fl = k\<close> show "resides tab k"
    by (auto simp: resides_def set_flows_of)
next
  assume "resides tab k"
  then obtain fl where fl: "Some fl \<in> set (buckets tab)" "key fl = k"
    by (auto simp: resides_def set_flows_of)
  then obtain i where i: "i < length (buckets tab)" "buckets tab ! i = Some fl"
    by (auto simp: in_set_conv_nth)
  with assms(2) fl(2) have "find_bucket tab k = i"
    by (auto simp: buckets_placed_iff)
  with i(2) fl(2) show "\<exists>fl. table_hash_lookup tab k = Some (Some fl)"
    by (simp add: table_hash_lookup_total [OF assms(1)])
qed

text \<open>The double-hashing lookup probes subtable 0 first and returns the first match.\<close>

lemma table_hash2_lookup_probes_in_order:
  assumes "table2_ok t2"
  shows "table_hash2_lookup t2 k =
     (case table_hash_lookup (subtable0 t2) k of
        Some (Some fl) \<Rightarrow> Some (Some fl)
      | _ \<Rightarrow> table_hash_lookup (subtable1 t2) k)"
proof -
  from assms have ok0: "table_ok (subtable0 t2)" and ok1: "table_ok (subtable1 t2)"
    by (simp_all add: table2_ok_def)
  show ?thesis
    by (simp add: table_hash2_lookup_def table_hash_lookup_total [OF ok0]
        table_hash_lookup_total [OF ok1] split: option.split)
qed

subsection \<open>The duplicate does not depend on the digest\<close>

lemma empty_table_nth:
  assumes "table_empty tab" "i < length (buckets tab)"
  shows "buckets tab ! i = None"
proof (cases "buckets tab ! i")
  case (Some f)
  with assms(2) have "Some f \<in> set (buckets tab)" by (metis nth_mem)
  then have "f \<in> set (flows_of (buckets tab))" by (simp add: set_flows_of)
  with assms(1) show ?thesis by (simp add: table_empty_def)
qed simp

lemma resides_update:
  assumes "b < length (buckets tab)" "key fl = k"
  shows "resides (tab\<lparr>n_flows := n, buckets := (buckets tab)[b := Some fl]\<rparr>) k"
  using assms set_update_memI [of b "buckets tab" "Some fl"]
  by (auto simp: resides_def set_flows_of)

text \<open>
  The run that duplicates a key does not depend on the digest: on every empty
  double-hashing table, whenever two distinct keys without wildcards are addressed to
  the same bucket of subtable 0, inserting the first, inserting the second, deleting
  the first and inserting the second again leaves the second key in both subtables, and
  a delete of that key then returns 2.
\<close>

lemma duplicate_after_delete_and_reinsert:
  assumes ok: "table2_ok t2"
    and e0: "table_empty (subtable0 t2)" and e1: "table_empty (subtable1 t2)"
    and w: "wildcards (key fa) = 0" "wildcards (key fb) = 0"
    and kb: "key fb' = key fb" and ne: "key fa \<noteq> key fb"
    and coll: "find_bucket (subtable0 t2) (key fa) = find_bucket (subtable0 t2) (key fb)"
  shows "\<exists>t. run_hash2 fdm t2 [Insert fa, Insert fb, Delete (key fa) strict, Insert fb'] = Some t
           \<and> resides (subtable0 t) (key fb) \<and> resides (subtable1 t) (key fb)
           \<and> (\<exists>t' es. table_hash2_delete fdm t (key fb) strict' = Some (2, t', es))"
proof -
  let ?s0 = "subtable0 t2" and ?s1 = "subtable1 t2"
  let ?b = "find_bucket ?s0 (key fb)" and ?c = "find_bucket ?s1 (key fb)"
  let ?c' = "find_bucket ?s1 (key fa)"
  from ok have ok0: "table_ok ?s0" and ok1: "table_ok ?s1" by (simp_all add: table2_ok_def)
  have rb: "?b < length (buckets ?s0)" and rc: "?c < length (buckets ?s1)"
    and rc': "?c' < length (buckets ?s1)"
    using ok0 ok1 by (simp_all add: find_bucket_in_range)
  have nb: "buckets ?s0 ! ?b = None" and nc: "buckets ?s1 ! ?c = None"
    and nc': "buckets ?s1 ! ?c' = None"
    using e0 e1 rb rc rc' by (simp_all add: empty_table_nth)
  let ?s0a = "?s0\<lparr>n_flows := n_flows ?s0 + 1, buckets := (buckets ?s0)[?b := Some fa]\<rparr>"
  let ?s1a = "?s1\<lparr>n_flows := n_flows ?s1 + 1, buckets := (buckets ?s1)[?c := Some fb]\<rparr>"
  let ?s0b = "?s0\<lparr>buckets := (buckets ?s0)[?b := None]\<rparr>"
  let ?s0c = "?s0\<lparr>n_flows := n_flows ?s0 + 1, buckets := (buckets ?s0)[?b := Some fb']\<rparr>"
  have s1: "apply_hash2 fdm t2 (Insert fa) = Some (t2\<lparr>subtable0 := ?s0a\<rparr>)"
    using w rb nb coll
    by (simp add: apply_hash2_def table_hash2_insert_def table_hash_insert_def Let_def)
  have s2: "apply_hash2 fdm (t2\<lparr>subtable0 := ?s0a\<rparr>) (Insert fb)
      = Some (t2\<lparr>subtable0 := ?s0a, subtable1 := ?s1a\<rparr>)"
    using w rb rc nc ne
    by (simp add: apply_hash2_def table_hash2_insert_def table_hash_insert_def Let_def)
  have s3: "apply_hash2 fdm (t2\<lparr>subtable0 := ?s0a, subtable1 := ?s1a\<rparr>) (Delete (key fa) strict)
      = Some (t2\<lparr>subtable0 := ?s0b, subtable1 := ?s1a\<rparr>)"
    using w rb rc rc' nc' ne coll
    by (simp add: apply_hash2_def table_hash2_delete_def table_hash_delete_def do_delete_def
        Let_def nth_list_update)
  have s4: "apply_hash2 fdm (t2\<lparr>subtable0 := ?s0b, subtable1 := ?s1a\<rparr>) (Insert fb')
      = Some (t2\<lparr>subtable0 := ?s0c, subtable1 := ?s1a\<rparr>)"
    using w rb kb
    by (simp add: apply_hash2_def table_hash2_insert_def table_hash_insert_def Let_def)
  have "run_hash2 fdm t2 [Insert fa, Insert fb, Delete (key fa) strict, Insert fb']
      = Some (t2\<lparr>subtable0 := ?s0c, subtable1 := ?s1a\<rparr>)"
    by (simp add: s1 s2 s3 s4)
  moreover have "resides ?s0c (key fb)"
    using rb kb by (rule resides_update)
  moreover have "resides ?s1a (key fb)"
    using rc refl by (rule resides_update)
  moreover have "\<exists>t' es. table_hash2_delete fdm (t2\<lparr>subtable0 := ?s0c, subtable1 := ?s1a\<rparr>)
      (key fb) strict' = Some (2, t', es)"
    using w rb rc kb
    by (simp add: table_hash2_delete_def table_hash_delete_def do_delete_def Let_def)
  ultimately show ?thesis by simp
qed

text \<open>
  Such a pair of keys exists for every digest and every subtable 0: there are more keys
  than buckets.
\<close>

lemma colliding_keys_exist:
  "\<exists>k1 k2. k1 \<noteq> k2 \<and> wildcards k1 = 0 \<and> wildcards k2 = 0
     \<and> find_bucket tab k1 = find_bucket tab k2"
proof -
  let ?k = "\<lambda>n :: nat. \<lparr>match_fields = replicate n 0, wildcards = 0\<rparr>"
  let ?f = "\<lambda>n. crc32 tab (?k n) AND bucket_mask tab"
  have "finite (range ?f)" by (rule finite_subset [of _ UNIV]) simp_all
  then have "\<not> inj ?f"
    using finite_imageD [of ?f UNIV] by auto
  then obtain n m where nm: "n \<noteq> m" "?f n = ?f m"
    by (auto simp: inj_on_def)
  then have "?k n \<noteq> ?k m"
    by (metis length_replicate sw_flow_key.select_convs(1))
  with nm(2) show ?thesis
    by (intro exI [of _ "?k n"] exI [of _ "?k m"]) (simp add: find_bucket_def)
qed

subsection \<open>The cursor of a single-hash table\<close>

lemma next_flow_spec:
  assumes "table_ok (th h)" "unat (bucket_i h) \<le> length (buckets (th h))"
  shows "\<exists>f h'. next_flow h = Some (f, h') \<and> th h' = th h
           \<and> (f = None \<longrightarrow> flows_of (drop (unat (bucket_i h)) (buckets (th h))) = [])
           \<and> (\<forall>fl. f = Some fl \<longrightarrow>
                 unat (bucket_i h') < length (buckets (th h))
                 \<and> buckets (th h) ! unat (bucket_i h') = Some fl
                 \<and> flows_of (drop (unat (bucket_i h)) (buckets (th h)))
                     = fl # flows_of (drop (Suc (unat (bucket_i h'))) (buckets (th h))))"
  using assms
proof (induction "length (buckets (th h)) - unat (bucket_i h)" arbitrary: h)
  case 0
  then have "\<not> bucket_i h \<le> bucket_mask (th h)"
    by (simp add: word_le_nat_alt table_ok_def)
  with 0 show ?case
    by (subst next_flow.simps) simp
next
  case (Suc n)
  let ?bs = "buckets (th h)" and ?i = "bucket_i h"
  from Suc.hyps(2) Suc.prems have lt: "unat ?i < length ?bs" by simp
  with Suc.prems have le: "?i \<le> bucket_mask (th h)"
    by (simp add: word_le_nat_alt table_ok_def)
  have ne: "bucket_mask (th h) \<noteq> - 1"
    using Suc.prems(1) by (simp add: table_ok_def)
  have suc: "unat (?i + 1) = Suc (unat ?i)"
    using le ne by (rule unat_succ_le_mask)
  have drop: "drop (unat ?i) ?bs = ?bs ! unat ?i # drop (Suc (unat ?i)) ?bs"
    using lt by (simp add: Cons_nth_drop_Suc)
  show ?case
  proof (cases "?bs ! unat ?i")
    case None
    let ?h1 = "h\<lparr>bucket_i := ?i + 1\<rparr>"
    have step: "next_flow h = next_flow ?h1"
      using le lt None by (subst next_flow.simps) simp
    have "n = length (buckets (th ?h1)) - unat (bucket_i ?h1)"
      using Suc.hyps(2) suc by simp
    moreover have "table_ok (th ?h1)" using Suc.prems(1) by simp
    moreover have "unat (bucket_i ?h1) \<le> length (buckets (th ?h1))"
      using lt suc by simp
    ultimately have "\<exists>f h'. next_flow ?h1 = Some (f, h') \<and> th h' = th ?h1
           \<and> (f = None \<longrightarrow> flows_of (drop (unat (bucket_i ?h1)) (buckets (th ?h1))) = [])
           \<and> (\<forall>fl. f = Some fl \<longrightarrow>
                 unat (bucket_i h') < length (buckets (th ?h1))
                 \<and> buckets (th ?h1) ! unat (bucket_i h') = Some fl
                 \<and> flows_of (drop (unat (bucket_i ?h1)) (buckets (th ?h1)))
                     = fl # flows_of (drop (Suc (unat (bucket_i h'))) (buckets (th ?h1))))"
      by (rule Suc.hyps(1))
    then show ?thesis
      using None by (simp add: step suc drop [unfolded None])
  next
    case (Some fl)
    have "next_flow h = Some (Some fl, h)"
      using le lt Some by (subst next_flow.simps) simp
    then show ?thesis
      using lt Some by (simp add: drop [unfolded Some])
  qed
qed

lemma cursor_on_flow:
  assumes "cursor_on tab it rest"
  shows "flow it = (case rest of [] \<Rightarrow> None | fl # _ \<Rightarrow> Some fl)"
  using assms by (auto simp: cursor_on_def split: ptr.splits option.splits)

lemma table_hash_iterator_spec:
  assumes "table_ok tab"
  shows "\<exists>it. table_hash_iterator True tab it0 = Some (1, it)
           \<and> cursor_on tab it (flows_of (buckets tab))"
proof -
  let ?h = "\<lparr>th = tab, bucket_i = 0\<rparr>"
  have "\<exists>f h'. next_flow ?h = Some (f, h') \<and> th h' = tab
      \<and> (f = None \<longrightarrow> flows_of (buckets tab) = [])
      \<and> (\<forall>fl. f = Some fl \<longrightarrow>
           unat (bucket_i h') < length (buckets tab)
           \<and> buckets tab ! unat (bucket_i h') = Some fl
           \<and> flows_of (buckets tab) = fl # flows_of (drop (Suc (unat (bucket_i h'))) (buckets tab)))"
    using next_flow_spec [of ?h] assms by simp
  then obtain f h' where nf: "next_flow ?h = Some (f, h')" "th h' = tab"
    and none: "f = None \<longrightarrow> flows_of (buckets tab) = []"
    and some: "\<forall>fl. f = Some fl \<longrightarrow>
           unat (bucket_i h') < length (buckets tab)
           \<and> buckets tab ! unat (bucket_i h') = Some fl
           \<and> flows_of (buckets tab) = fl # flows_of (drop (Suc (unat (bucket_i h'))) (buckets tab))"
    by blast
  have "cursor_on tab (it0\<lparr>flow := f, priv := Ptr h'\<rparr>) (flows_of (buckets tab))"
  proof (cases f)
    case None
    with none nf(2) show ?thesis by (simp add: cursor_on_def)
  next
    case (Some fl)
    with some nf(2) show ?thesis by (simp add: cursor_on_def)
  qed
  with nf(1) show ?thesis
    by (simp add: table_hash_iterator_def)
qed

lemma table_hash_next_spec:
  assumes "table_ok tab" "cursor_on tab it (fl # rest)"
  shows "\<exists>it'. table_hash_next it = Some it' \<and> cursor_on tab it' rest"
proof -
  from assms(2) obtain h where h: "priv it = Ptr h" "th h = tab" "flow it = Some fl"
    "unat (bucket_i h) < length (buckets tab)"
    "rest = flows_of (drop (Suc (unat (bucket_i h))) (buckets tab))"
    by (auto simp: cursor_on_def split: ptr.splits option.splits)
  let ?h1 = "h\<lparr>bucket_i := bucket_i h + 1\<rparr>"
  have le: "bucket_i h \<le> bucket_mask tab"
    using h(4) assms(1) by (simp add: word_le_nat_alt table_ok_def)
  have ne: "bucket_mask tab \<noteq> - 1"
    using assms(1) by (simp add: table_ok_def)
  have suc: "unat (bucket_i h + 1) = Suc (unat (bucket_i h))"
    using le ne by (rule unat_succ_le_mask)
  have "\<exists>f h'. next_flow ?h1 = Some (f, h') \<and> th h' = tab
      \<and> (f = None \<longrightarrow> rest = [])
      \<and> (\<forall>fl'. f = Some fl' \<longrightarrow>
           unat (bucket_i h') < length (buckets tab)
           \<and> buckets tab ! unat (bucket_i h') = Some fl'
           \<and> rest = fl' # flows_of (drop (Suc (unat (bucket_i h'))) (buckets tab)))"
    using next_flow_spec [of ?h1] assms(1) h(2,4,5) suc by simp
  then obtain f h' where nf: "next_flow ?h1 = Some (f, h')" "th h' = tab"
    and none: "f = None \<longrightarrow> rest = []"
    and some: "\<forall>fl'. f = Some fl' \<longrightarrow>
           unat (bucket_i h') < length (buckets tab)
           \<and> buckets tab ! unat (bucket_i h') = Some fl'
           \<and> rest = fl' # flows_of (drop (Suc (unat (bucket_i h'))) (buckets tab))"
    by blast
  have "cursor_on tab (it\<lparr>flow := f, priv := Ptr h'\<rparr>) rest"
  proof (cases f)
    case None
    with none nf(2) show ?thesis by (simp add: cursor_on_def)
  next
    case (Some fl')
    with some nf(2) show ?thesis by (simp add: cursor_on_def)
  qed
  with nf(1) h(1,3) show ?thesis
    by (simp add: table_hash_next_def)
qed

lemma collect_hash_spec:
  assumes "table_ok tab" "cursor_on tab it rest"
  shows "collect_hash it seen = Some (seen @ rest)"
  using assms(2)
proof (induction rest arbitrary: it seen)
  case Nil
  then have "flow it = None" by (simp add: cursor_on_flow)
  then show ?case by (subst collect_hash.simps) simp
next
  case (Cons fl rest)
  then have cur: "flow it = Some fl" by (simp add: cursor_on_flow)
  from table_hash_next_spec [OF assms(1) Cons.prems]
  obtain it' where nx: "table_hash_next it = Some it'" "cursor_on tab it' rest"
    by blast
  from Cons.IH [OF nx(2), of "seen @ [fl]"] cur nx(1) show ?case
    by (subst collect_hash.simps) simp
qed


subsection \<open>The cursor of a double-hashing table\<close>

lemma cursor_on_live:
  assumes "cursor_on tab it rest"
  shows "\<exists>h. priv it = Ptr h"
  using assms by (auto simp: cursor_on_def split: ptr.splits)

lemma table_hash2_next_second:
  assumes "table2_ok t2" "cursor2_second t2 it (fl # rest)"
  shows "\<exists>it'. table_hash2_next malloc_ok it = Some it' \<and> cursor2_second t2 it' rest"
proof -
  from assms(2) obtain h2 where h2: "priv it = Ptr h2" "th2 h2 = t2" "table_i h2 \<noteq> 0"
    "flow (ih h2) = flow it" "cursor_on (subtable1 t2) (ih h2) (fl # rest)"
    by (auto simp: cursor2_second_def split: ptr.splits)
  from assms(1) have ok1: "table_ok (subtable1 t2)" by (simp add: table2_ok_def)
  from h2(4,5) have cur: "flow it = Some fl" by (simp add: cursor_on_flow)
  from table_hash_next_spec [OF ok1 h2(5)]
  obtain inner where inner: "table_hash_next (ih h2) = Some inner"
    "cursor_on (subtable1 t2) inner rest"
    by blast
  show ?thesis
  proof (cases "flow inner")
    case None
    with h2 cur inner show ?thesis
      by (simp add: table_hash2_next_def cursor2_second_def)
  next
    case (Some f)
    with h2 cur inner show ?thesis
      by (simp add: table_hash2_next_def cursor2_second_def)
  qed
qed

lemma collect_hash2_second:
  assumes "table2_ok t2" "cursor2_second t2 it rest"
  shows "collect_hash2 malloc_ok it seen = Some (seen @ rest)"
  using assms(2)
proof (induction rest arbitrary: it seen)
  case Nil
  then have "flow it = None"
    by (auto simp: cursor2_second_def cursor_on_flow split: ptr.splits)
  then show ?case by (subst collect_hash2.simps) simp
next
  case (Cons fl rest)
  then have cur: "flow it = Some fl"
    by (auto simp: cursor2_second_def cursor_on_flow split: ptr.splits)
  from table_hash2_next_second [OF assms(1) Cons.prems, of malloc_ok]
  obtain it' where nx: "table_hash2_next malloc_ok it = Some it'" "cursor2_second t2 it' rest"
    by blast
  from Cons.IH [OF nx(2), of "seen @ [fl]"] cur nx(1) show ?case
    by (subst collect_hash2.simps) simp
qed

lemma table_hash2_next_first:
  assumes "table2_ok t2" "cursor2_first t2 it (fl # rest)"
  shows "\<exists>it'. table_hash2_next True it = Some it'
           \<and> (if rest = [] then cursor2_second t2 it' (flows_of (buckets (subtable1 t2)))
               else cursor2_first t2 it' rest)"
proof -
  from assms(2) obtain h2 where h2: "priv it = Ptr h2" "th2 h2 = t2" "table_i h2 = 0"
    "flow (ih h2) = flow it" "cursor_on (subtable0 t2) (ih h2) (fl # rest)"
    by (auto simp: cursor2_first_def split: ptr.splits)
  from assms(1) have ok0: "table_ok (subtable0 t2)" and ok1: "table_ok (subtable1 t2)"
    by (simp_all add: table2_ok_def)
  from h2(4,5) have cur: "flow it = Some fl" by (simp add: cursor_on_flow)
  from table_hash_next_spec [OF ok0 h2(5)]
  obtain inner where inner: "table_hash_next (ih h2) = Some inner"
    "cursor_on (subtable0 t2) inner rest"
    by blast
  show ?thesis
  proof (cases rest)
    case Nil
    with inner(2) have none: "flow inner = None" by (simp add: cursor_on_flow)
    from cursor_on_live [OF inner(2)] obtain h where live: "priv inner = Ptr h" ..
    then have gone: "table_hash_iterator_destroy inner = Some (inner\<lparr>priv := Freed\<rparr>)"
      by (simp add: table_hash_iterator_destroy_def)
    from table_hash_iterator_spec [OF ok1, of "inner\<lparr>priv := Freed\<rparr>"]
    obtain it1 where it1: "table_hash_iterator True (subtable1 t2) (inner\<lparr>priv := Freed\<rparr>) = Some (1, it1)"
      "cursor_on (subtable1 t2) it1 (flows_of (buckets (subtable1 t2)))"
      by blast
    from h2 cur inner(1) none gone it1 Nil show ?thesis
      by (simp add: table_hash2_next_def cursor2_second_def)
  next
    case (Cons fl' rest')
    with inner(2) have some: "flow inner = Some fl'" by (simp add: cursor_on_flow)
    from h2 cur inner some Cons show ?thesis
      by (simp add: table_hash2_next_def cursor2_first_def)
  qed
qed

lemma collect_hash2_first:
  assumes "table2_ok t2" "cursor2_first t2 it rest"
  shows "collect_hash2 True it seen = Some (seen @ rest @ flows_of (buckets (subtable1 t2)))"
  using assms(2)
proof (induction rest arbitrary: it seen)
  case Nil
  then show ?case by (auto simp: cursor2_first_def split: ptr.splits)
next
  case (Cons fl rest)
  then have cur: "flow it = Some fl"
    by (auto simp: cursor2_first_def cursor_on_flow split: ptr.splits)
  from table_hash2_next_first [OF assms(1) Cons.prems]
  obtain it' where nx: "table_hash2_next True it = Some it'"
    "if rest = [] then cursor2_second t2 it' (flows_of (buckets (subtable1 t2)))
     else cursor2_first t2 it' rest"
    by blast
  show ?case
  proof (cases "rest = []")
    case True
    with nx(2) have "cursor2_second t2 it' (flows_of (buckets (subtable1 t2)))" by simp
    from collect_hash2_second [OF assms(1) this, of True "seen @ [fl]"] cur nx(1) True
    show ?thesis by (subst collect_hash2.simps) simp
  next
    case False
    with nx(2) have "cursor2_first t2 it' rest" by simp
    from Cons.IH [OF this, of "seen @ [fl]"] cur nx(1)
    show ?thesis by (subst collect_hash2.simps) simp
  qed
qed

lemma table_hash2_iterator_spec:
  assumes "table2_ok t2"
  shows "\<exists>it. table_hash2_iterator (Some old_contents) True True t2 it0 = Some (1, it)
           \<and> (if flows_of (buckets (subtable0 t2)) = []
               then cursor2_second t2 it (flows_of (buckets (subtable1 t2)))
               else cursor2_first t2 it (flows_of (buckets (subtable0 t2))))"
proof -
  from assms have ok0: "table_ok (subtable0 t2)" and ok1: "table_ok (subtable1 t2)"
    by (simp_all add: table2_ok_def)
  from table_hash_iterator_spec [OF ok0, of "ih old_contents"]
  obtain i0 where i0: "table_hash_iterator True (subtable0 t2) (ih old_contents) = Some (1, i0)"
    "cursor_on (subtable0 t2) i0 (flows_of (buckets (subtable0 t2)))"
    by blast
  show ?thesis
  proof (cases "flows_of (buckets (subtable0 t2))")
    case Nil
    with i0(2) have none: "flow i0 = None" by (simp add: cursor_on_flow)
    from cursor_on_live [OF i0(2)] obtain h where live: "priv i0 = Ptr h" ..
    then have gone: "table_hash_iterator_destroy i0 = Some (i0\<lparr>priv := Freed\<rparr>)"
      by (simp add: table_hash_iterator_destroy_def)
    from table_hash_iterator_spec [OF ok1, of "i0\<lparr>priv := Freed\<rparr>"]
    obtain i1 where i1: "table_hash_iterator True (subtable1 t2) (i0\<lparr>priv := Freed\<rparr>) = Some (1, i1)"
      "cursor_on (subtable1 t2) i1 (flows_of (buckets (subtable1 t2)))"
      by blast
    from i0(1) none gone i1 Nil show ?thesis
      by (simp add: table_hash2_iterator_def cursor2_second_def)
  next
    case (Cons fl rest)
    with i0(2) have some: "flow i0 = Some fl" by (simp add: cursor_on_flow)
    from i0 some Cons show ?thesis
      by (simp add: table_hash2_iterator_def cursor2_first_def)
  qed
qed

subsection \<open>What the value returned by an insert says\<close>

lemma table_hash_insert_stores:
  assumes "table_ok tab" "insert_case tab fl \<noteq> Rejected"
  shows "\<exists>tab' es. table_hash_insert tab fl = Some (1, tab', es)
           \<and> buckets tab' = (buckets tab)[find_bucket tab (key fl) := Some fl]
           \<and> bucket_mask tab' = bucket_mask tab \<and> crc32 tab' = crc32 tab
           \<and> table_hash_lookup tab' (key fl) = Some (Some fl)"
  using assms find_bucket_in_range [OF assms(1), of "key fl"]
  by (cases "insert_case tab fl")
    (simp_all add: table_hash_insert_cases table_hash_lookup_def find_bucket_def)

text \<open>
  Claim C1, as the code has it. An insert returns an \<^verbatim>\<open>int\<close> that takes two values.
  It is 1 when the flow has been stored: in an empty bucket, with \<^verbatim>\<open>n_flows\<close> one
  higher and nothing freed (accepted-new), or in place of a flow with the same key,
  which is freed, \<^verbatim>\<open>n_flows\<close> as it was (accepted-replace); either way a lookup of the
  key now returns the flow. It is 0 when the flow has been rejected (the key carries
  wildcards, or the target bucket holds a flow with another key), and then the table
  is as it was and nothing is freed. On a double-hashing table the insert is that of
  subtable 0 if subtable 0 accepts, otherwise that of subtable 1 with subtable 0
  untouched; it returns 0 exactly when both reject. The value returned tells stored
  from rejected, and does not tell accepted-new from accepted-replace.
\<close>

theorem insert_result_tells_stored_from_rejected:
  assumes "table_ok tab" and "table2_ok t2"
  shows "(\<exists>r tab' es. table_hash_insert tab fl = Some (r, tab', es)
            \<and> (insert_case tab fl = Accepted_New \<longrightarrow>
                   r = 1 \<and> es = []
                   \<and> tab' = tab\<lparr>n_flows := n_flows tab + 1,
                                 buckets := (buckets tab)[find_bucket tab (key fl) := Some fl]\<rparr>)
            \<and> (insert_case tab fl = Accepted_Replace \<longrightarrow>
                   r = 1
                   \<and> (\<exists>old_flow. buckets tab ! find_bucket tab (key fl) = Some old_flow
                          \<and> key old_flow = key fl \<and> es = [Flow_Free old_flow])
                   \<and> tab' = tab\<lparr>buckets := (buckets tab)[find_bucket tab (key fl) := Some fl]\<rparr>)
            \<and> (insert_case tab fl = Rejected \<longrightarrow> r = 0 \<and> es = [] \<and> tab' = tab)
            \<and> (r = 1 \<longrightarrow> table_hash_lookup tab' (key fl) = Some (Some fl)))
       \<and> (\<exists>r t2' es. table_hash2_insert t2 fl = Some (r, t2', es)
            \<and> (insert_case (subtable0 t2) fl \<noteq> Rejected \<longrightarrow>
                   r = 1 \<and> table_hash_insert (subtable0 t2) fl = Some (1, subtable0 t2', es)
                   \<and> subtable1 t2' = subtable1 t2)
            \<and> (insert_case (subtable0 t2) fl = Rejected
                 \<and> insert_case (subtable1 t2) fl \<noteq> Rejected \<longrightarrow>
                   r = 1 \<and> subtable0 t2' = subtable0 t2
                   \<and> table_hash_insert (subtable1 t2) fl = Some (1, subtable1 t2', es))
            \<and> (insert_case (subtable0 t2) fl = Rejected
                 \<and> insert_case (subtable1 t2) fl = Rejected \<longrightarrow>
                   r = 0 \<and> es = [] \<and> t2' = t2)
            \<and> (r = 1 \<longrightarrow> table_hash2_lookup t2' (key fl) = Some (Some fl)))"
proof -
  let ?b = "find_bucket tab (key fl)"
  have rng: "?b < length (buckets tab)" using assms(1) by (rule find_bucket_in_range)
  have single: "\<exists>r tab' es. table_hash_insert tab fl = Some (r, tab', es)
            \<and> (insert_case tab fl = Accepted_New \<longrightarrow>
                   r = 1 \<and> es = []
                   \<and> tab' = tab\<lparr>n_flows := n_flows tab + 1,
                                 buckets := (buckets tab)[?b := Some fl]\<rparr>)
            \<and> (insert_case tab fl = Accepted_Replace \<longrightarrow>
                   r = 1
                   \<and> (\<exists>old_flow. buckets tab ! ?b = Some old_flow
                          \<and> key old_flow = key fl \<and> es = [Flow_Free old_flow])
                   \<and> tab' = tab\<lparr>buckets := (buckets tab)[?b := Some fl]\<rparr>)
            \<and> (insert_case tab fl = Rejected \<longrightarrow> r = 0 \<and> es = [] \<and> tab' = tab)
            \<and> (r = 1 \<longrightarrow> table_hash_lookup tab' (key fl) = Some (Some fl))"
  proof (cases "insert_case tab fl")
    case Accepted_New
    with rng show ?thesis
      by (simp add: table_hash_insert_cases [OF assms(1)] table_hash_lookup_def find_bucket_def)
  next
    case Accepted_Replace
    then obtain old_flow where "buckets tab ! ?b = Some old_flow" "key old_flow = key fl"
      by (auto simp: insert_case_def split: if_splits option.splits)
    with Accepted_Replace rng show ?thesis
      by (simp add: table_hash_insert_cases [OF assms(1)] table_hash_lookup_def find_bucket_def)
  next
    case Rejected
    then show ?thesis
      by (simp add: table_hash_insert_cases [OF assms(1)])
  qed
  from assms(2) have ok0: "table_ok (subtable0 t2)" and ok1: "table_ok (subtable1 t2)"
    by (simp_all add: table2_ok_def)
  have double: "\<exists>r t2' es. table_hash2_insert t2 fl = Some (r, t2', es)
            \<and> (insert_case (subtable0 t2) fl \<noteq> Rejected \<longrightarrow>
                   r = 1 \<and> table_hash_insert (subtable0 t2) fl = Some (1, subtable0 t2', es)
                   \<and> subtable1 t2' = subtable1 t2)
            \<and> (insert_case (subtable0 t2) fl = Rejected
                 \<and> insert_case (subtable1 t2) fl \<noteq> Rejected \<longrightarrow>
                   r = 1 \<and> subtable0 t2' = subtable0 t2
                   \<and> table_hash_insert (subtable1 t2) fl = Some (1, subtable1 t2', es))
            \<and> (insert_case (subtable0 t2) fl = Rejected
                 \<and> insert_case (subtable1 t2) fl = Rejected \<longrightarrow>
                   r = 0 \<and> es = [] \<and> t2' = t2)
            \<and> (r = 1 \<longrightarrow> table_hash2_lookup t2' (key fl) = Some (Some fl))"
  proof (cases "insert_case (subtable0 t2) fl = Rejected")
    case False
    from table_hash_insert_stores [OF ok0 False]
    obtain s0 es where s0: "table_hash_insert (subtable0 t2) fl = Some (1, s0, es)"
      "table_hash_lookup s0 (key fl) = Some (Some fl)"
      by blast
    with False show ?thesis
      by (simp add: table_hash2_insert_def table_hash2_lookup_def)
  next
    case True
    note rej0 = this
    then have same0: "table_hash_insert (subtable0 t2) fl = Some (0, subtable0 t2, [])"
      by (simp add: table_hash_insert_cases [OF ok0])
    show ?thesis
    proof (cases "insert_case (subtable1 t2) fl = Rejected")
      case True
      with rej0 show ?thesis
        by (simp add: table_hash2_insert_def table_hash_insert_cases [OF ok0]
            table_hash_insert_cases [OF ok1])
    next
      case False
      from table_hash_insert_stores [OF ok1 False]
      obtain s1 es where s1: "table_hash_insert (subtable1 t2) fl = Some (1, s1, es)"
        "table_hash_lookup s1 (key fl) = Some (Some fl)"
        by blast
      from False have "wildcards (key fl) = 0"
        by (auto simp: insert_case_def split: if_splits)
      with rej0 have "table_hash_lookup (subtable0 t2) (key fl) = Some None"
        by (auto simp: table_hash_lookup_total [OF ok0] insert_case_def
            split: if_splits option.splits)
      with rej0 False same0 s1 show ?thesis
        by (simp add: table_hash2_insert_def table_hash2_lookup_def)
    qed
  qed
  from single double show ?thesis ..
qed


theorem insert_result_tells_stored_from_rejected_witness:
  "table_ok (demo_table 1 [None, None, None, Some flow_a])
   \<and> table2_ok (demo_table2 [None, None, None, Some flow_a] no_flows)
   \<and> insert_case (demo_table 1 [None, None, None, Some flow_a]) flow_a' = Accepted_Replace
   \<and> insert_case (demo_table 1 [None, None, None, Some flow_a]) flow_b = Rejected
   \<and> insert_case (demo_table 2 no_flows) flow_b = Accepted_New
   \<and> (\<exists>r tab' es. table_hash_insert (demo_table 1 [None, None, None, Some flow_a]) flow_a'
                      = Some (r, tab', es)
          \<and> r = 1 \<and> es = [Flow_Free flow_a]
          \<and> buckets tab' = [None, None, None, Some flow_a']
          \<and> table_hash_lookup tab' (key flow_a') = Some (Some flow_a'))
   \<and> (\<exists>r t2' es. table_hash2_insert (demo_table2 [None, None, None, Some flow_a] no_flows) flow_b
                      = Some (r, t2', es)
          \<and> r = 1 \<and> subtable0 t2' = demo_table 1 [None, None, None, Some flow_a]
          \<and> table_hash2_lookup t2' (key flow_b) = Some (Some flow_b))"
proof -
  have ok: "table_ok (demo_table 1 [None, None, None, Some flow_a])"
    by (simp add: demo_table_ok)
  have ok2: "table2_ok (demo_table2 [None, None, None, Some flow_a] no_flows)"
    by (simp add: table2_ok_def demo_table2_def demo_table_ok no_flows_def)
  have c: "insert_case (demo_table 1 [None, None, None, Some flow_a]) flow_a' = Accepted_Replace"
    "insert_case (demo_table 1 [None, None, None, Some flow_a]) flow_b = Rejected"
    "insert_case (demo_table 2 no_flows) flow_b = Accepted_New"
    by (simp_all add: insert_case_def find_bucket_def demo_defs)
  have b: "find_bucket (demo_table 1 [None, None, None, Some flow_a]) (key flow_a') = 3"
    by (simp add: find_bucket_def demo_defs)
  from insert_result_tells_stored_from_rejected [OF ok ok2, of flow_a']
  have one: "\<exists>r tab' es. table_hash_insert (demo_table 1 [None, None, None, Some flow_a]) flow_a'
                      = Some (r, tab', es)
          \<and> r = 1 \<and> es = [Flow_Free flow_a]
          \<and> buckets tab' = [None, None, None, Some flow_a']
          \<and> table_hash_lookup tab' (key flow_a') = Some (Some flow_a')"
    by (auto simp: c b) (simp_all add: demo_table_def)
  from insert_result_tells_stored_from_rejected [OF ok ok2, of flow_b]
  have two: "\<exists>r t2' es. table_hash2_insert (demo_table2 [None, None, None, Some flow_a] no_flows) flow_b
                      = Some (r, t2', es)
          \<and> r = 1 \<and> subtable0 t2' = demo_table 1 [None, None, None, Some flow_a]
          \<and> table_hash2_lookup t2' (key flow_b) = Some (Some flow_b)"
    by (auto simp: c demo_table2_def)
  from ok ok2 c one two show ?thesis by blast
qed

subsection \<open>What a delete with an exact key removes\<close>

lemma table_hash_delete_exact_by_lookup:
  assumes "table_ok tab" "wildcards k = 0"
  shows "\<exists>r tab' es. table_hash_delete fdm tab k strict = Some (r, tab', es)
           \<and> (\<forall>f. table_hash_lookup tab k = Some (Some f) \<longrightarrow>
                  r = 1 \<and> es = [Flow_Free f]
                  \<and> buckets tab' = (buckets tab)[find_bucket tab k := None])
           \<and> (table_hash_lookup tab k = Some None \<longrightarrow>
                  r = 0 \<and> es = [] \<and> buckets tab' = buckets tab)
           \<and> (r = 0 \<or> r = 1)
           \<and> (r = 1 \<longleftrightarrow> (\<exists>f. table_hash_lookup tab k = Some (Some f)))
           \<and> length (flows_of (buckets tab')) + unat r = length (flows_of (buckets tab))
           \<and> n_flows tab' = n_flows tab - r
           \<and> bucket_mask tab' = bucket_mask tab \<and> crc32 tab' = crc32 tab"
proof (cases "buckets tab ! find_bucket tab k")
  case None
  then show ?thesis
    by (simp add: table_hash_delete_exact_spec [OF assms] table_hash_lookup_total [OF assms(1)])
next
  case (Some g)
  with flows_of_clear_bucket [OF find_bucket_in_range [OF assms(1), of k] Some]
  show ?thesis
    by (simp add: table_hash_delete_exact_spec [OF assms] table_hash_lookup_total [OF assms(1)])
qed

text \<open>
  Claim C8, as the code has it. With a key without wildcards, a delete on a single-hash
  table removes exactly the flow that a lookup of the key finds, if any: it frees that
  flow, clears its bucket and returns 1, or it changes nothing and returns 0. On a
  double-hashing table it does this in each subtable and returns the sum: 2 exactly when
  a lookup finds the key in both subtables (where flows sit in the buckets their keys
  are addressed to, as in every state reached from an empty table: when the key resides
  in both), and at most 1 otherwise. On both flavors the count returned is the number
  of flows removed and freed, and the \<^verbatim>\<open>n_flows\<close> the table reports goes down by it.
\<close>

theorem exact_delete_removes_what_lookup_finds:
  assumes "table_ok tab" and "table2_ok t2" and "wildcards k = 0"
  shows "(\<exists>r tab' es. table_hash_delete fdm tab k strict = Some (r, tab', es)
            \<and> (\<forall>f. table_hash_lookup tab k = Some (Some f) \<longrightarrow>
                   r = 1 \<and> es = [Flow_Free f]
                   \<and> buckets tab' = (buckets tab)[find_bucket tab k := None])
            \<and> (table_hash_lookup tab k = Some None \<longrightarrow>
                   r = 0 \<and> es = [] \<and> buckets tab' = buckets tab)
            \<and> (r = 0 \<or> r = 1)
            \<and> length (flows_of (buckets tab')) + unat r = length (flows_of (buckets tab))
            \<and> fst (snd (table_hash_stats tab')) = fst (snd (table_hash_stats tab)) - r)
       \<and> (\<exists>r0 r1 t2' es0 es1.
              table_hash2_delete fdm t2 k strict = Some (r0 + r1, t2', es0 @ es1)
            \<and> table_hash_delete fdm (subtable0 t2) k strict = Some (r0, subtable0 t2', es0)
            \<and> table_hash_delete fdm (subtable1 t2) k strict = Some (r1, subtable1 t2', es1)
            \<and> (r0 = 0 \<or> r0 = 1) \<and> (r1 = 0 \<or> r1 = 1)
            \<and> (r0 = 1 \<longleftrightarrow> (\<exists>f. table_hash_lookup (subtable0 t2) k = Some (Some f)))
            \<and> (r1 = 1 \<longleftrightarrow> (\<exists>f. table_hash_lookup (subtable1 t2) k = Some (Some f)))
            \<and> (r0 + r1 = 2 \<longleftrightarrow>
                  (\<exists>f. table_hash_lookup (subtable0 t2) k = Some (Some f))
                  \<and> (\<exists>f. table_hash_lookup (subtable1 t2) k = Some (Some f)))
            \<and> (buckets_placed (subtable0 t2) \<and> buckets_placed (subtable1 t2) \<longrightarrow>
                  (r0 + r1 = 2 \<longleftrightarrow> resides (subtable0 t2) k \<and> resides (subtable1 t2) k))
            \<and> length (flows_of (buckets (subtable0 t2'))) + length (flows_of (buckets (subtable1 t2')))
                  + unat (r0 + r1)
                = length (flows_of (buckets (subtable0 t2))) + length (flows_of (buckets (subtable1 t2)))
            \<and> length (es0 @ es1) = unat (r0 + r1)
            \<and> fst (snd (table_hash2_stats t2')) = fst (snd (table_hash2_stats t2)) - (r0 + r1))"
proof -
  from assms(2) have ok0: "table_ok (subtable0 t2)" and ok1: "table_ok (subtable1 t2)"
    by (simp_all add: table2_ok_def)
  from table_hash_delete_exact_by_lookup [OF assms(1,3), of fdm strict]
  have single: "\<exists>r tab' es. table_hash_delete fdm tab k strict = Some (r, tab', es)
            \<and> (\<forall>f. table_hash_lookup tab k = Some (Some f) \<longrightarrow>
                   r = 1 \<and> es = [Flow_Free f]
                   \<and> buckets tab' = (buckets tab)[find_bucket tab k := None])
            \<and> (table_hash_lookup tab k = Some None \<longrightarrow>
                   r = 0 \<and> es = [] \<and> buckets tab' = buckets tab)
            \<and> (r = 0 \<or> r = 1)
            \<and> length (flows_of (buckets tab')) + unat r = length (flows_of (buckets tab))
            \<and> fst (snd (table_hash_stats tab')) = fst (snd (table_hash_stats tab)) - r"
    by (simp add: table_hash_stats_def) blast
  from table_hash_delete_exact_by_lookup [OF ok0 assms(3), of fdm strict]
  obtain r0 s0 es0 where d0: "table_hash_delete fdm (subtable0 t2) k strict = Some (r0, s0, es0)"
    and f0: "r0 = 0 \<or> r0 = 1"
      "r0 = 1 \<longleftrightarrow> (\<exists>f. table_hash_lookup (subtable0 t2) k = Some (Some f))"
      "length (flows_of (buckets s0)) + unat r0 = length (flows_of (buckets (subtable0 t2)))"
      "n_flows s0 = n_flows (subtable0 t2) - r0"
    and e0: "\<forall>f. table_hash_lookup (subtable0 t2) k = Some (Some f) \<longrightarrow> es0 = [Flow_Free f]"
      "table_hash_lookup (subtable0 t2) k = Some None \<longrightarrow> es0 = []"
    by blast
  from table_hash_delete_exact_by_lookup [OF ok1 assms(3), of fdm strict]
  obtain r1 s1 es1 where d1: "table_hash_delete fdm (subtable1 t2) k strict = Some (r1, s1, es1)"
    and f1: "r1 = 0 \<or> r1 = 1"
      "r1 = 1 \<longleftrightarrow> (\<exists>f. table_hash_lookup (subtable1 t2) k = Some (Some f))"
      "length (flows_of (buckets s1)) + unat r1 = length (flows_of (buckets (subtable1 t2)))"
      "n_flows s1 = n_flows (subtable1 t2) - r1"
    and e1: "\<forall>f. table_hash_lookup (subtable1 t2) k = Some (Some f) \<longrightarrow> es1 = [Flow_Free f]"
      "table_hash_lookup (subtable1 t2) k = Some None \<longrightarrow> es1 = []"
    by blast
  have l0: "length es0 = unat r0"
    using f0(1,2) e0 by (auto simp: table_hash_lookup_total [OF ok0] split: option.splits if_splits)
  have l1: "length es1 = unat r1"
    using f1(1,2) e1 by (auto simp: table_hash_lookup_total [OF ok1] split: option.splits if_splits)
  have two: "r0 + r1 = 2 \<longleftrightarrow> r0 = 1 \<and> r1 = 1"
    using f0(1) f1(1) by auto
  have sum: "unat (r0 + r1) = unat r0 + unat r1"
    using f0(1) f1(1) by auto
  have call: "table_hash2_delete fdm t2 k strict
      = Some (r0 + r1, t2\<lparr>subtable0 := s0, subtable1 := s1\<rparr>, es0 @ es1)"
    by (simp add: table_hash2_delete_def d0 d1)
  have placed: "buckets_placed (subtable0 t2) \<and> buckets_placed (subtable1 t2) \<longrightarrow>
      (r0 + r1 = 2 \<longleftrightarrow> resides (subtable0 t2) k \<and> resides (subtable1 t2) k)"
    using two f0(2) f1(2) lookup_finds_residents [OF ok0, of k] lookup_finds_residents [OF ok1, of k]
    by simp
  have double: "\<exists>r0 r1 t2' es0 es1.
              table_hash2_delete fdm t2 k strict = Some (r0 + r1, t2', es0 @ es1)
            \<and> table_hash_delete fdm (subtable0 t2) k strict = Some (r0, subtable0 t2', es0)
            \<and> table_hash_delete fdm (subtable1 t2) k strict = Some (r1, subtable1 t2', es1)
            \<and> (r0 = 0 \<or> r0 = 1) \<and> (r1 = 0 \<or> r1 = 1)
            \<and> (r0 = 1 \<longleftrightarrow> (\<exists>f. table_hash_lookup (subtable0 t2) k = Some (Some f)))
            \<and> (r1 = 1 \<longleftrightarrow> (\<exists>f. table_hash_lookup (subtable1 t2) k = Some (Some f)))
            \<and> (r0 + r1 = 2 \<longleftrightarrow>
                  (\<exists>f. table_hash_lookup (subtable0 t2) k = Some (Some f))
                  \<and> (\<exists>f. table_hash_lookup (subtable1 t2) k = Some (Some f)))
            \<and> (buckets_placed (subtable0 t2) \<and> buckets_placed (subtable1 t2) \<longrightarrow>
                  (r0 + r1 = 2 \<longleftrightarrow> resides (subtable0 t2) k \<and> resides (subtable1 t2) k))
            \<and> length (flows_of (buckets (subtable0 t2'))) + length (flows_of (buckets (subtable1 t2')))
                  + unat (r0 + r1)
                = length (flows_of (buckets (subtable0 t2))) + length (flows_of (buckets (subtable1 t2)))
            \<and> length (es0 @ es1) = unat (r0 + r1)
            \<and> fst (snd (table_hash2_stats t2')) = fst (snd (table_hash2_stats t2)) - (r0 + r1)"
    apply (rule exI [of _ r0], rule exI [of _ r1])
    apply (rule exI [of _ "t2\<lparr>subtable0 := s0, subtable1 := s1\<rparr>"])
    apply (rule exI [of _ es0], rule exI [of _ es1])
    using call d0 d1 f0 f1 l0 l1 two sum placed
    apply (simp add: table_hash2_stats_def table_hash_stats_def)
    done
  from single double show ?thesis ..
qed


theorem exact_delete_removes_what_lookup_finds_witness:
  "table_ok (demo_table 1 [None, None, None, Some flow_b'])
   \<and> table2_ok (demo_table2 [None, None, None, Some flow_b'] [None, Some flow_b, None, None])
   \<and> wildcards key_b = 0
   \<and> (\<exists>r tab' es.
         table_hash_delete demo_del_matches (demo_table 1 [None, None, None, Some flow_b']) key_b 0
           = Some (r, tab', es)
         \<and> r = 1 \<and> es = [Flow_Free flow_b'] \<and> buckets tab' = no_flows)
   \<and> (\<exists>r0 r1 t2' es0 es1.
         table_hash2_delete demo_del_matches
             (demo_table2 [None, None, None, Some flow_b'] [None, Some flow_b, None, None]) key_b 0
           = Some (r0 + r1, t2', es0 @ es1)
         \<and> r0 + r1 = 2 \<and> es0 @ es1 = [Flow_Free flow_b', Flow_Free flow_b])"
proof -
  have ok: "table_ok (demo_table 1 [None, None, None, Some flow_b'])"
    by (simp add: demo_table_ok)
  have ok2: "table2_ok (demo_table2 [None, None, None, Some flow_b'] [None, Some flow_b, None, None])"
    by (simp add: table2_ok_def demo_table2_def demo_table_ok)
  have w: "wildcards key_b = 0" by (simp add: key_b_def)
  have direct: "table_hash_delete demo_del_matches (demo_table 1 [None, None, None, Some flow_b']) key_b 0
      = Some (1, demo_table 1 no_flows, [Flow_Free flow_b'])"
    by (simp add: table_hash_delete_def do_delete_def find_bucket_def demo_defs)
  have direct2: "table_hash2_delete demo_del_matches
      (demo_table2 [None, None, None, Some flow_b'] [None, Some flow_b, None, None]) key_b 0
      = Some (2, demo_table2 no_flows no_flows, [Flow_Free flow_b', Flow_Free flow_b])"
    by (simp add: table_hash2_delete_def table_hash_delete_def do_delete_def find_bucket_def
        demo_defs)
  note inst = exact_delete_removes_what_lookup_finds [OF ok ok2 w, of demo_del_matches 0]
  from inst [THEN conjunct2] obtain r0 r1 t2' es0 es1 where "table_hash2_delete demo_del_matches
          (demo_table2 [None, None, None, Some flow_b'] [None, Some flow_b, None, None]) key_b 0
        = Some (r0 + r1, t2', es0 @ es1)"
    by blast
  with direct2 have two: "\<exists>r0 r1 t2' es0 es1.
         table_hash2_delete demo_del_matches
             (demo_table2 [None, None, None, Some flow_b'] [None, Some flow_b, None, None]) key_b 0
           = Some (r0 + r1, t2', es0 @ es1)
         \<and> r0 + r1 = 2 \<and> es0 @ es1 = [Flow_Free flow_b', Flow_Free flow_b]"
    by (intro exI [of _ r0] exI [of _ r1] exI [of _ t2'] exI [of _ es0] exI [of _ es1]) simp
  from direct have one: "\<exists>r tab' es.
         table_hash_delete demo_del_matches (demo_table 1 [None, None, None, Some flow_b']) key_b 0
           = Some (r, tab', es)
         \<and> r = 1 \<and> es = [Flow_Free flow_b'] \<and> buckets tab' = no_flows"
    by (simp add: demo_table_def)
  from ok ok2 w one two show ?thesis by (intro conjI)
qed

subsection \<open>Runs that keep every key in one subtable\<close>

lemma resides_after_store:
  assumes "resides (tab\<lparr>buckets := (buckets tab)[b := Some fl]\<rparr>) k
         \<or> resides (tab\<lparr>n_flows := n, buckets := (buckets tab)[b := Some fl]\<rparr>) k"
  shows "k = key fl \<or> resides tab k"
  using assms flows_of_fill_subset [of "buckets tab" b fl]
  by (auto simp: resides_def)

lemma resides_placed_bucket:
  assumes "buckets_placed tab" "resides tab k"
  shows "\<exists>f. buckets tab ! find_bucket tab k = Some f \<and> key f = k"
proof -
  from assms(2) obtain f where f: "Some f \<in> set (buckets tab)" "key f = k"
    by (auto simp: resides_def set_flows_of)
  then obtain i where i: "i < length (buckets tab)" "buckets tab ! i = Some f"
    by (auto simp: in_set_conv_nth)
  with assms(1) f(2) have "find_bucket tab k = i"
    by (auto simp: buckets_placed_iff)
  with i(2) f(2) show ?thesis by simp
qed

lemma insert_keeps_keys_apart:
  assumes ok: "table2_ok t2" and placed: "buckets_placed (subtable0 t2)"
    and apart: "\<forall>k. \<not> (resides (subtable0 t2) k \<and> resides (subtable1 t2) k)"
    and safe: "\<not> duplicating_insert t2 (Insert fl)"
  shows "\<exists>t2'. apply_hash2 fdm t2 (Insert fl) = Some t2' \<and> table2_ok t2'
           \<and> buckets_placed (subtable0 t2')
           \<and> (\<forall>k. \<not> (resides (subtable0 t2') k \<and> resides (subtable1 t2') k))"
proof -
  let ?s0 = "subtable0 t2" and ?s1 = "subtable1 t2"
  let ?b0 = "find_bucket ?s0 (key fl)" and ?b1 = "find_bucket ?s1 (key fl)"
  from ok have ok0: "table_ok ?s0" and ok1: "table_ok ?s1"
    by (simp_all add: table2_ok_def)
  show ?thesis
  proof (cases "insert_case ?s0 fl")
    case Accepted_New
    with safe have fresh: "\<not> resides ?s1 (key fl)"
      by (simp add: duplicating_insert_def)
    let ?s0' = "?s0\<lparr>n_flows := n_flows ?s0 + 1, buckets := (buckets ?s0)[?b0 := Some fl]\<rparr>"
    have "\<not> (resides ?s0' k \<and> resides ?s1 k)" for k
      using resides_after_store [of ?s0 ?b0 fl k] fresh apart by blast
    then show ?thesis
      using Accepted_New ok0 ok1 placed_update(2) [OF placed refl, of fl]
      by (simp add: apply_hash2_def table_hash2_insert_def table_hash_insert_cases
          table2_ok_def table_ok_def)
  next
    case Accepted_Replace
    then obtain g where g: "buckets ?s0 ! ?b0 = Some g" "key g = key fl"
      by (auto simp: insert_case_def split: if_splits option.splits)
    with find_bucket_in_range [OF ok0, of "key fl"] have "Some g \<in> set (buckets ?s0)"
      by (metis nth_mem)
    then have "g \<in> set (flows_of (buckets ?s0))"
      by (simp add: set_flows_of)
    then have "key g \<in> key ` set (flows_of (buckets ?s0))"
      by (rule imageI)
    with g(2) have "resides ?s0 (key fl)"
      by (simp add: resides_def)
    with apart have fresh: "\<not> resides ?s1 (key fl)" by blast
    let ?s0' = "?s0\<lparr>buckets := (buckets ?s0)[?b0 := Some fl]\<rparr>"
    have "\<not> (resides ?s0' k \<and> resides ?s1 k)" for k
      using resides_after_store [of ?s0 ?b0 fl k] fresh apart by blast
    then show ?thesis
      using Accepted_Replace ok0 ok1 placed_update(1) [OF placed refl, of fl]
      by (simp add: apply_hash2_def table_hash2_insert_def table_hash_insert_cases
          table2_ok_def table_ok_def)
  next
    case Rejected
    note rej0 = this
    show ?thesis
    proof (cases "insert_case ?s1 fl = Rejected")
      case True
      with rej0 ok placed apart ok0 ok1 show ?thesis
        by (simp add: apply_hash2_def table_hash2_insert_def table_hash_insert_cases)
    next
      case False
      then have "wildcards (key fl) = 0"
        by (auto simp: insert_case_def split: if_splits)
      with rej0 obtain g where g: "buckets ?s0 ! ?b0 = Some g" "key g \<noteq> key fl"
        by (auto simp: insert_case_def split: if_splits option.splits)
      have absent: "\<not> resides ?s0 (key fl)"
        using resides_placed_bucket [OF placed, of "key fl"] g by auto
      have step: "\<not> (resides ?s0 k \<and> resides s1' k)"
        if "resides s1' k \<longrightarrow> k = key fl \<or> resides ?s1 k" for s1' k
        using that absent apart by blast
      from False show ?thesis
      proof (cases "insert_case ?s1 fl")
        case Accepted_New
        let ?s1' = "?s1\<lparr>n_flows := n_flows ?s1 + 1, buckets := (buckets ?s1)[?b1 := Some fl]\<rparr>"
        have "\<not> (resides ?s0 k \<and> resides ?s1' k)" for k
          using step [of ?s1' k] resides_after_store [of ?s1 ?b1 fl k] by blast
        then show ?thesis
          using rej0 Accepted_New ok0 ok1 placed
          by (simp add: apply_hash2_def table_hash2_insert_def table_hash_insert_cases
              table2_ok_def table_ok_def)
      next
        case Accepted_Replace
        let ?s1' = "?s1\<lparr>buckets := (buckets ?s1)[?b1 := Some fl]\<rparr>"
        have "\<not> (resides ?s0 k \<and> resides ?s1' k)" for k
          using step [of ?s1' k] resides_after_store [of ?s1 ?b1 fl k] by blast
        then show ?thesis
          using rej0 Accepted_Replace ok0 ok1 placed
          by (simp add: apply_hash2_def table_hash2_insert_def table_hash_insert_cases
              table2_ok_def table_ok_def)
      qed simp
    qed
  qed
qed

lemma removal_keeps_placed:
  assumes "table2_ok t2" "buckets_placed (subtable0 t2)" "\<not> is_insert x"
  shows "\<exists>t2'. apply_hash2 fdm t2 x = Some t2' \<and> buckets_placed (subtable0 t2')"
proof (cases x)
  case (Insert fl)
  with assms(3) show ?thesis by simp
next
  case (Delete k strict)
  from assms(1) have ok0: "table_ok (subtable0 t2)" and ok1: "table_ok (subtable1 t2)"
    by (simp_all add: table2_ok_def)
  from delete_preserves [OF ok0 assms(2), of fdm k strict]
  obtain r0 s0 es0 where d0: "table_hash_delete fdm (subtable0 t2) k strict = Some (r0, s0, es0)"
    "buckets_placed s0"
    by blast
  from table_hash_delete_shrinks [OF ok1, of fdm k strict]
  obtain r1 s1 es1 where d1: "table_hash_delete fdm (subtable1 t2) k strict = Some (r1, s1, es1)"
    by blast
  from Delete d0 d1 show ?thesis
    by (simp add: apply_hash2_def table_hash2_delete_def)
next
  case (Timeout expired)
  from assms(1) have ok0: "table_ok (subtable0 t2)" and ok1: "table_ok (subtable1 t2)"
    by (simp_all add: table2_ok_def)
  from timeout_preserves [OF ok0 assms(2), of expired]
  obtain r0 s0 es0 where d0: "table_hash_timeout expired (subtable0 t2) = Some (r0, s0, es0)"
    "buckets_placed s0"
    by blast
  from table_hash_timeout_shrinks [OF ok1, of expired]
  obtain r1 s1 es1 where d1: "table_hash_timeout expired (subtable1 t2) = Some (r1, s1, es1)"
    by blast
  from Timeout d0 d1 show ?thesis
    by (simp add: apply_hash2_def table_hash2_timeout_def)
qed

lemma step_keeps_keys_apart:
  assumes ok: "table2_ok t2" and placed: "buckets_placed (subtable0 t2)"
    and apart: "\<forall>k. \<not> (resides (subtable0 t2) k \<and> resides (subtable1 t2) k)"
    and safe: "\<not> duplicating_insert t2 x"
  shows "\<exists>t2'. apply_hash2 fdm t2 x = Some t2' \<and> table2_ok t2'
           \<and> buckets_placed (subtable0 t2')
           \<and> (\<forall>k. \<not> (resides (subtable0 t2') k \<and> resides (subtable1 t2') k))"
proof (cases "is_insert x")
  case True
  then obtain fl where "x = Insert fl" by (cases x) simp_all
  with insert_keeps_keys_apart [OF ok placed apart, of fl fdm] safe show ?thesis by simp
next
  case False
  from removal_shrinks [OF ok False, of fdm]
  obtain t2' where t2': "apply_hash2 fdm t2 x = Some t2'" "table2_ok t2'"
    "set (flows_of (buckets (subtable0 t2'))) \<subseteq> set (flows_of (buckets (subtable0 t2)))"
    "set (flows_of (buckets (subtable1 t2'))) \<subseteq> set (flows_of (buckets (subtable1 t2)))"
    by blast
  from removal_keeps_placed [OF ok placed False, of fdm] t2'(1)
  have "buckets_placed (subtable0 t2')" by simp
  moreover have "\<not> (resides (subtable0 t2') k \<and> resides (subtable1 t2') k)" for k
    using apart t2'(3,4) by (auto simp: resides_def)
  ultimately show ?thesis using t2'(1,2) by blast
qed

lemma run_keeps_keys_apart:
  assumes "table2_ok t2" "buckets_placed (subtable0 t2)"
    "\<forall>k. \<not> (resides (subtable0 t2) k \<and> resides (subtable1 t2) k)"
    "no_duplicating_insert fdm t2 xs"
  shows "\<exists>t2'. run_hash2 fdm t2 xs = Some t2' \<and> table2_ok t2'
           \<and> buckets_placed (subtable0 t2')
           \<and> (\<forall>k. \<not> (resides (subtable0 t2') k \<and> resides (subtable1 t2') k))"
  using assms
proof (induction xs arbitrary: t2)
  case Nil
  then show ?case by simp
next
  case (Cons x xs)
  from Cons.prems(4) have safe: "\<not> duplicating_insert t2 x" by simp
  from step_keeps_keys_apart [OF Cons.prems(1-3) safe, of fdm]
  obtain t2a where step: "apply_hash2 fdm t2 x = Some t2a" "table2_ok t2a"
    "buckets_placed (subtable0 t2a)"
    "\<forall>k. \<not> (resides (subtable0 t2a) k \<and> resides (subtable1 t2a) k)"
    by blast
  from Cons.prems(4) step(1) have rest: "no_duplicating_insert fdm t2a xs" by simp
  from Cons.IH [OF step(2-4) rest] step(1) show ?case by simp
qed

text \<open>
  The one kind of call that is excluded does put a key into both subtables: whenever
  the key of the flow resides in subtable 1 and subtable 0 has an empty bucket for it,
  the insert stores the flow in subtable 0 and leaves subtable 1 as it is.
\<close>

lemma duplicating_insert_duplicates:
  assumes "table2_ok t2" "duplicating_insert t2 (Insert fl)"
  shows "\<exists>t2'. apply_hash2 fdm t2 (Insert fl) = Some t2'
           \<and> resides (subtable0 t2') (key fl) \<and> resides (subtable1 t2') (key fl)"
proof -
  from assms(1) have ok0: "table_ok (subtable0 t2)" by (simp add: table2_ok_def)
  from assms(2) have new: "insert_case (subtable0 t2) fl = Accepted_New"
    and there: "resides (subtable1 t2) (key fl)"
    by (simp_all add: duplicating_insert_def)
  have "resides (subtable0 t2\<lparr>n_flows := n_flows (subtable0 t2) + 1,
      buckets := (buckets (subtable0 t2))[find_bucket (subtable0 t2) (key fl) := Some fl]\<rparr>) (key fl)"
    using find_bucket_in_range [OF ok0] refl by (rule resides_update)
  with new there show ?thesis
    by (simp add: apply_hash2_def table_hash2_insert_def table_hash_insert_cases [OF ok0])
qed

text \<open>
  Claim C2, as the code has it. Starting from an empty double-hashing table, after any
  sequence of inserts, deletes and timeouts, in any order, in which no insert is made
  of a flow whose key at that moment resides in subtable 1 while subtable 0 has an
  empty bucket for it, no key resides in both subtables. (Such an insert is the one
  way to break this: it always leaves its key in both subtables.)
\<close>

theorem key_in_one_subtable_without_duplicating_insert:
  assumes "table2_ok t2"
    and "table_empty (subtable0 t2)" and "table_empty (subtable1 t2)"
    and "no_duplicating_insert fdm t2 xs"
  shows "\<exists>t2'. run_hash2 fdm t2 xs = Some t2'
           \<and> (\<forall>k. \<not> (resides (subtable0 t2') k \<and> resides (subtable1 t2') k))"
proof -
  have "buckets_placed (subtable0 t2)"
    using assms(2) by (rule empty_table_placed)
  moreover have "\<forall>k. \<not> (resides (subtable0 t2) k \<and> resides (subtable1 t2) k)"
    using assms(2) by (simp add: resides_def table_empty_def)
  ultimately show ?thesis
    using run_keeps_keys_apart [OF assms(1) _ _ assms(4)] by blast
qed


theorem key_in_one_subtable_without_duplicating_insert_witness:
  "table2_ok (demo_table2 no_flows no_flows)
   \<and> table_empty (subtable0 (demo_table2 no_flows no_flows))
   \<and> table_empty (subtable1 (demo_table2 no_flows no_flows))
   \<and> no_duplicating_insert demo_del_matches (demo_table2 no_flows no_flows)
        [Insert flow_a, Insert flow_b, Delete key_b 0, Insert flow_b', Delete key_a 0,
         Insert flow_a']
   \<and> (\<exists>t2'. run_hash2 demo_del_matches (demo_table2 no_flows no_flows)
                [Insert flow_a, Insert flow_b, Delete key_b 0, Insert flow_b', Delete key_a 0,
                 Insert flow_a']
              = Some t2'
            \<and> (\<forall>k. \<not> (resides (subtable0 t2') k \<and> resides (subtable1 t2') k)))"
proof -
  have ok: "table2_ok (demo_table2 no_flows no_flows)"
    by (simp add: table2_ok_def demo_table2_def demo_table_ok no_flows_def)
  have e0: "table_empty (subtable0 (demo_table2 no_flows no_flows))"
    and e1: "table_empty (subtable1 (demo_table2 no_flows no_flows))"
    by (simp_all add: table_empty_def demo_table2_def demo_table_def no_flows_def)
  have safe: "no_duplicating_insert demo_del_matches (demo_table2 no_flows no_flows)
        [Insert flow_a, Insert flow_b, Delete key_b 0, Insert flow_b', Delete key_a 0,
         Insert flow_a']"
    by (simp add: duplicating_insert_def resides_def insert_case_def apply_hash2_def
        table_hash2_insert_def table_hash2_delete_def table_hash_insert_def
        table_hash_delete_def do_delete_def find_bucket_def demo_defs)
  from key_in_one_subtable_without_duplicating_insert [OF ok e0 e1 safe] ok e0 e1 safe
  show ?thesis by (intro conjI)
qed

subsection \<open>Cursors when an allocation fails\<close>

lemma table_hash2_next_first_failing:
  assumes "table2_ok t2" "cursor2_first t2 it (fl # rest)"
  shows "\<exists>it'. table_hash2_next False it = Some it'
           \<and> (if rest = [] then flow it' = None else cursor2_first t2 it' rest)"
proof -
  from assms(2) obtain h2 where h2: "priv it = Ptr h2" "th2 h2 = t2" "table_i h2 = 0"
    "flow (ih h2) = flow it" "cursor_on (subtable0 t2) (ih h2) (fl # rest)"
    by (auto simp: cursor2_first_def split: ptr.splits)
  from assms(1) have ok0: "table_ok (subtable0 t2)" by (simp add: table2_ok_def)
  from h2(4,5) have cur: "flow it = Some fl" by (simp add: cursor_on_flow)
  from table_hash_next_spec [OF ok0 h2(5)]
  obtain inner where inner: "table_hash_next (ih h2) = Some inner"
    "cursor_on (subtable0 t2) inner rest"
    by blast
  show ?thesis
  proof (cases rest)
    case Nil
    with inner(2) have none: "flow inner = None" by (simp add: cursor_on_flow)
    from cursor_on_live [OF inner(2)] obtain h where live: "priv inner = Ptr h" ..
    then have gone: "table_hash_iterator_destroy inner = Some (inner\<lparr>priv := Freed\<rparr>)"
      by (simp add: table_hash_iterator_destroy_def)
    from h2 cur inner(1) none gone Nil show ?thesis
      by (simp add: table_hash2_next_def table_hash_iterator_def)
  next
    case (Cons fl' rest')
    with inner(2) have some: "flow inner = Some fl'" by (simp add: cursor_on_flow)
    from h2 cur inner some Cons show ?thesis
      by (simp add: table_hash2_next_def cursor2_first_def)
  qed
qed

lemma collect_hash2_first_failing:
  assumes "table2_ok t2" "cursor2_first t2 it rest"
  shows "collect_hash2 False it seen = Some (seen @ rest)"
  using assms(2)
proof (induction rest arbitrary: it seen)
  case Nil
  then show ?case by (auto simp: cursor2_first_def split: ptr.splits)
next
  case (Cons fl rest)
  then have cur: "flow it = Some fl"
    by (auto simp: cursor2_first_def cursor_on_flow split: ptr.splits)
  from table_hash2_next_first_failing [OF assms(1) Cons.prems]
  obtain it' where nx: "table_hash2_next False it = Some it'"
    "if rest = [] then flow it' = None else cursor2_first t2 it' rest"
    by blast
  show ?case
  proof (cases "rest = []")
    case True
    with nx(2) have "flow it' = None" by simp
    then have "collect_hash2 False it' (seen @ [fl]) = Some (seen @ [fl])"
      by (subst collect_hash2.simps) simp
    with cur nx(1) True show ?thesis by (subst collect_hash2.simps) simp
  next
    case False
    with nx(2) have "cursor2_first t2 it' rest" by simp
    from Cons.IH [OF this, of "seen @ [fl]"] cur nx(1)
    show ?thesis by (subst collect_hash2.simps) simp
  qed
qed

lemma table_hash2_iterator_outcomes:
  assumes "table2_ok t2"
  shows "\<exists>r it. table_hash2_iterator (Some old_contents) malloc_ok0 malloc_ok1 t2 it0 = Some (r, it)
           \<and> r = (if malloc_ok0 \<and> (malloc_ok1 \<or> flows_of (buckets (subtable0 t2)) \<noteq> [])
                   then 1 else 0)
           \<and> (r = 1 \<longrightarrow>
                 (if flows_of (buckets (subtable0 t2)) = []
                  then cursor2_second t2 it (flows_of (buckets (subtable1 t2)))
                  else cursor2_first t2 it (flows_of (buckets (subtable0 t2)))))"
proof (cases malloc_ok0)
  case False
  then show ?thesis
    by (simp add: table_hash2_iterator_def table_hash_iterator_def)
next
  case True
  from assms have ok0: "table_ok (subtable0 t2)" and ok1: "table_ok (subtable1 t2)"
    by (simp_all add: table2_ok_def)
  from table_hash_iterator_spec [OF ok0, of "ih old_contents"]
  obtain i0 where i0: "table_hash_iterator True (subtable0 t2) (ih old_contents) = Some (1, i0)"
    "cursor_on (subtable0 t2) i0 (flows_of (buckets (subtable0 t2)))"
    by blast
  show ?thesis
  proof (cases "flows_of (buckets (subtable0 t2))")
    case Nil
    with i0(2) have none: "flow i0 = None" by (simp add: cursor_on_flow)
    from cursor_on_live [OF i0(2)] obtain h where live: "priv i0 = Ptr h" ..
    then have gone: "table_hash_iterator_destroy i0 = Some (i0\<lparr>priv := Freed\<rparr>)"
      by (simp add: table_hash_iterator_destroy_def)
    show ?thesis
    proof (cases malloc_ok1)
      case False
      with True i0(1) none gone Nil show ?thesis
        by (simp add: table_hash2_iterator_def)
          (simp add: table_hash_iterator_def)
    next
      case m1: True
      from table_hash_iterator_spec [OF ok1, of "i0\<lparr>priv := Freed\<rparr>"]
      obtain i1 where i1: "table_hash_iterator True (subtable1 t2) (i0\<lparr>priv := Freed\<rparr>) = Some (1, i1)"
        "cursor_on (subtable1 t2) i1 (flows_of (buckets (subtable1 t2)))"
        by blast
      from True m1 i0(1) none gone i1 Nil show ?thesis
        by (simp add: table_hash2_iterator_def cursor2_second_def)
    qed
  next
    case (Cons fl rest)
    with i0(2) have some: "flow i0 = Some fl" by (simp add: cursor_on_flow)
    from True i0 some Cons show ?thesis
      by (simp add: table_hash2_iterator_def cursor2_first_def)
  qed
qed

text \<open>
  Claim C7, as the code has it. Creating a cursor reports success exactly when its
  allocations succeed. A fresh cursor over a single-hash table, advanced until its
  current flow is absent, shows exactly the flows of the occupied buckets, each once,
  in increasing bucket order; over an empty table its current flow is absent from the
  start. A fresh cursor over a double-hashing table shows the flows of subtable 0 in
  bucket order and then those of subtable 1 in bucket order, provided the allocation
  that \<^verbatim>\<open>table_hash2_next\<close> makes on leaving subtable 0 succeeds; when that allocation
  fails, it shows the flows of subtable 0 and ends.
\<close>

theorem cursor_shows_occupied_buckets_while_allocations_succeed:
  assumes "table_ok tab" and "table2_ok t2"
  shows "(\<exists>r it. table_hash_iterator malloc_ok tab it0 = Some (r, it)
            \<and> r = (if malloc_ok then 1 else 0)
            \<and> (r = 1 \<longrightarrow>
                  collect_hash it [] = Some (flows_of (buckets tab))
                  \<and> (if table_empty tab then flow it = None else flow it \<noteq> None)))
       \<and> (\<exists>r it2. table_hash2_iterator (Some old_contents) malloc_ok0 malloc_ok1 t2 it20
                     = Some (r, it2)
            \<and> r = (if malloc_ok0 \<and> (malloc_ok1 \<or> flows_of (buckets (subtable0 t2)) \<noteq> [])
                    then 1 else 0)
            \<and> (r = 1 \<longrightarrow>
                  collect_hash2 malloc_ok_next it2 []
                    = Some (if malloc_ok_next \<or> flows_of (buckets (subtable0 t2)) = []
                            then flows_of (buckets (subtable0 t2)) @ flows_of (buckets (subtable1 t2))
                            else flows_of (buckets (subtable0 t2)))))
       \<and> table_hash2_iterator None malloc_ok0 malloc_ok1 t2 it20 = Some (0, it20\<lparr>priv := Null\<rparr>)"
proof -
  have single: "\<exists>r it. table_hash_iterator malloc_ok tab it0 = Some (r, it)
            \<and> r = (if malloc_ok then 1 else 0)
            \<and> (r = 1 \<longrightarrow>
                  collect_hash it [] = Some (flows_of (buckets tab))
                  \<and> (if table_empty tab then flow it = None else flow it \<noteq> None))"
  proof (cases malloc_ok)
    case False
    then show ?thesis by (simp add: table_hash_iterator_def)
  next
    case True
    from table_hash_iterator_spec [OF assms(1), of it0]
    obtain it where it: "table_hash_iterator True tab it0 = Some (1, it)"
      "cursor_on tab it (flows_of (buckets tab))"
      by blast
    have "if table_empty tab then flow it = None else flow it \<noteq> None"
      using cursor_on_flow [OF it(2)] by (simp add: table_empty_def split: list.splits)
    with True it(1) collect_hash_spec [OF assms(1) it(2), of "[]"] show ?thesis
      by simp
  qed
  from table_hash2_iterator_outcomes [OF assms(2), of old_contents malloc_ok0 malloc_ok1 it20]
  obtain r it2 where it2:
    "table_hash2_iterator (Some old_contents) malloc_ok0 malloc_ok1 t2 it20 = Some (r, it2)"
    "r = (if malloc_ok0 \<and> (malloc_ok1 \<or> flows_of (buckets (subtable0 t2)) \<noteq> []) then 1 else 0)"
    "r = 1 \<longrightarrow>
       (if flows_of (buckets (subtable0 t2)) = []
        then cursor2_second t2 it2 (flows_of (buckets (subtable1 t2)))
        else cursor2_first t2 it2 (flows_of (buckets (subtable0 t2))))"
    by blast
  have "collect_hash2 malloc_ok_next it2 []
      = Some (if malloc_ok_next \<or> flows_of (buckets (subtable0 t2)) = []
              then flows_of (buckets (subtable0 t2)) @ flows_of (buckets (subtable1 t2))
              else flows_of (buckets (subtable0 t2)))" if "r = 1"
  proof (cases "flows_of (buckets (subtable0 t2)) = []")
    case True
    with it2(3) that
    collect_hash2_second [OF assms(2), of it2 "flows_of (buckets (subtable1 t2))" malloc_ok_next "[]"]
    show ?thesis by simp
  next
    case False
    with it2(3) that have first: "cursor2_first t2 it2 (flows_of (buckets (subtable0 t2)))"
      by simp
    show ?thesis
    proof (cases malloc_ok_next)
      case True
      with False collect_hash2_first [OF assms(2) first, of "[]"] show ?thesis by simp
    next
      case no: False
      with False collect_hash2_first_failing [OF assms(2) first, of "[]"] show ?thesis by simp
    qed
  qed
  with it2(1,2) have double: "\<exists>r it2. table_hash2_iterator (Some old_contents) malloc_ok0 malloc_ok1 t2 it20
                     = Some (r, it2)
            \<and> r = (if malloc_ok0 \<and> (malloc_ok1 \<or> flows_of (buckets (subtable0 t2)) \<noteq> [])
                    then 1 else 0)
            \<and> (r = 1 \<longrightarrow>
                  collect_hash2 malloc_ok_next it2 []
                    = Some (if malloc_ok_next \<or> flows_of (buckets (subtable0 t2)) = []
                            then flows_of (buckets (subtable0 t2)) @ flows_of (buckets (subtable1 t2))
                            else flows_of (buckets (subtable0 t2))))"
    by blast
  have no_block: "table_hash2_iterator None malloc_ok0 malloc_ok1 t2 it20
      = Some (0, it20\<lparr>priv := Null\<rparr>)"
    by (simp add: table_hash2_iterator_def)
  from single double no_block show ?thesis by (intro conjI)
qed


theorem cursor_shows_occupied_buckets_while_allocations_succeed_witness:
  "table_ok (demo_table 1 [Some flow_b, None, None, Some flow_a])
   \<and> table2_ok (demo_table2 [None, None, None, Some flow_a] [None, Some flow_b, None, None])
   \<and> (\<exists>r it. table_hash_iterator True (demo_table 1 [Some flow_b, None, None, Some flow_a]) end_cursor
              = Some (r, it)
          \<and> r = 1 \<and> collect_hash it [] = Some [flow_b, flow_a] \<and> flow it \<noteq> None)
   \<and> (\<exists>r it2. table_hash2_iterator (Some end_state2) True True
                (demo_table2 [None, None, None, Some flow_a] [None, Some flow_b, None, None])
                end_cursor2
              = Some (r, it2)
          \<and> r = 1 \<and> collect_hash2 True it2 [] = Some [flow_a, flow_b])"
proof -
  have ok: "table_ok (demo_table 1 [Some flow_b, None, None, Some flow_a])"
    by (simp add: demo_table_ok)
  have ok2: "table2_ok (demo_table2 [None, None, None, Some flow_a] [None, Some flow_b, None, None])"
    by (simp add: table2_ok_def demo_table2_def demo_table_ok)
  from cursor_shows_occupied_buckets_while_allocations_succeed
    [OF ok ok2, of True end_cursor end_state2 True True end_cursor2 True] ok ok2
  show ?thesis
    by (simp add: demo_table_def demo_table2_def table_empty_def)
qed

text \<open>
  Claim C7 as stated fails on the double-hashing table: the cursor below is the one a
  successful \<^verbatim>\<open>table_hash2_iterator\<close> returns over a table with \<open>flow_a\<close> in subtable 0
  and \<open>flow_b\<close> in subtable 1; when the allocation that \<^verbatim>\<open>table_hash2_next\<close> makes on
  leaving subtable 0 fails, the traversal shows \<open>flow_a\<close> and ends.
\<close>

theorem traversal_ends_after_subtable0_when_allocation_fails:
  "table_hash2_iterator (Some end_state2) True True
       (demo_table2 [None, None, None, Some flow_a] [None, Some flow_b, None, None]) end_cursor2
     = Some (1, cursor_at_a)
   \<and> collect_hash2 False cursor_at_a [] = Some [flow_a]
   \<and> flows_of (buckets (subtable1
        (demo_table2 [None, None, None, Some flow_a] [None, Some flow_b, None, None]))) = [flow_b]"
proof -
  have ok2: "table2_ok (demo_table2 [None, None, None, Some flow_a] [None, Some flow_b, None, None])"
    by (simp add: table2_ok_def demo_table2_def demo_table_ok)
  have first: "next_flow \<lparr>th = demo_table 1 [None, None, None, Some flow_a], bucket_i = 0\<rparr>
      = Some (Some flow_a, \<lparr>th = demo_table 1 [None, None, None, Some flow_a], bucket_i = 3\<rparr>)"
    by (subst next_flow.simps, simp add: demo_table_def)+
  have created: "table_hash2_iterator (Some end_state2) True True
       (demo_table2 [None, None, None, Some flow_a] [None, Some flow_b, None, None]) end_cursor2
     = Some (1, cursor_at_a)"
    by (simp add: table_hash2_iterator_def table_hash_iterator_def first demo_table2_def
        end_state2_def end_cursor2_def cursor_at_a_def)
  have "cursor2_first (demo_table2 [None, None, None, Some flow_a] [None, Some flow_b, None, None])
      cursor_at_a [flow_a]"
    by (simp add: cursor2_first_def cursor_on_def cursor_at_a_def demo_table2_def demo_table_def)
  from collect_hash2_first_failing [OF ok2 this, of "[]"] created show ?thesis
    by (simp add: demo_table2_def demo_table_def)
qed

end
